theory Spec2Isabelle
  imports Main "HOL-Library.Sublist"
begin

section \<open>The debug logger of the database client (clientLogger.ts)\<close>

text \<open>
  The module renders the record of one request/response exchange as a block of text
  (\<open>showRequestResult\<close>) and hands the block to a user-supplied logging function
  (\<open>logger\<close>). JavaScript strings are modelled as \<^typ>\<open>string\<close>, objects used as
  dictionaries as association lists in the order of \<open>Object.keys\<close>, exceptions as the
  left summand of a sum type, and the effects of the two external calls (the JSON
  serializer and the logging function) as transformers of an abstract world state.
\<close>

subsection \<open>String primitives of the host language\<close>

text \<open>
  \<open>str.split(sep)\<close> for a separator of one character. The result is never empty:
  the empty string splits into one empty piece.
\<close>

fun split_str :: "char \<Rightarrow> string \<Rightarrow> string list" where
  "split_str c [] = [[]]"
| "split_str c (x # xs) =
     (if x = c then [] # split_str c xs
      else (case split_str c xs of [] \<Rightarrow> [[x]] | l # ls \<Rightarrow> (x # l) # ls))"

text \<open>\<open>pieces.join(sep)\<close> on an array of strings.\<close>

fun join_str :: "string \<Rightarrow> string list \<Rightarrow> string" where
  "join_str sep [] = []"
| "join_str sep [x] = x"
| "join_str sep (x # y # ys) = x @ sep @ join_str sep (y # ys)"

text \<open>
  String concatenation with a number operand, for integers: the decimal digits, with a
  minus sign for a negative number. This is what the language writes for an integer that
  a number represents exactly (of magnitude below \<open>2^53\<close>), as status codes and
  milliseconds are; other numbers are outside the model.
\<close>

fun digits_of :: "nat \<Rightarrow> string" where
  "digits_of n =
     (if n < 10 then [char_of (48 + n)] else digits_of (n div 10) @ [char_of (48 + n mod 10)])"

declare digits_of.simps [simp del]

definition Number_toString :: "int \<Rightarrow> string" where
  "Number_toString i = (if i < 0 then CHR ''-'' # digits_of (nat (- i)) else digits_of (nat i))"

subsection \<open>The helpers of the formatter\<close>

text \<open>\<open>_indent\<close>: split at the newlines and join again with a newline and two spaces.\<close>

definition indentStr :: string where
  "indentStr = ''  ''"

definition indent :: "string \<Rightarrow> string" where
  "indent str = join_str (CHR ''\<newline>'' # indentStr) (split_str CHR ''\<newline>'' str)"

text \<open>
  \<open>_queryString\<close>. The query is \<open>null\<close> (\<open>None\<close>; \<open>undefined\<close> compares equal to
  \<open>null\<close> under \<open>==\<close>) or an object, given by its own enumerable properties in the
  order of \<open>Object.keys\<close>. \<open>query[key]\<close> is the lookup of the key in the object.
\<close>

type_synonym query = "(string \<times> string) list"

definition Object_keys :: "query \<Rightarrow> string list" where
  "Object_keys q = map fst q"

definition lookup :: "query \<Rightarrow> string \<Rightarrow> string" where
  "lookup q key = (case map_of q key of Some v \<Rightarrow> v | None \<Rightarrow> ''undefined'')"

definition queryString :: "query option \<Rightarrow> string" where
  "queryString query =
     (case query of
        None \<Rightarrow> ''''
      | Some q \<Rightarrow>
          (let keys = Object_keys q in
           if length keys = 0 then ''''
           else
             (let pairs = map (\<lambda>key. key @ ''='' @ lookup q key) keys
              in ''?'' @ join_str ''&'' pairs)))"

subsection \<open>Values, exceptions and effects\<close>

text \<open>
  The values handed to the serializer: \<open>null\<close>, booleans, numbers (the integers among
  them), strings, arrays, and objects as the list of their properties in the order of
  \<open>Object.keys\<close>.
  \<open>JUnserializable\<close> stands for content that no JSON text represents: a reference
  back to an enclosing object (a cycle) or a value of an unsupported type.
\<close>

datatype jsvalue =
    JNull
  | JBool bool
  | JNumber int
  | JString string
  | JArray "jsvalue list"
  | JObject "(string \<times> jsvalue) list"
  | JUnserializable

text \<open>
  A call that can have an effect takes the state of the world and returns the new one,
  together with either the exception it throws (\<open>Inl\<close>) or its value (\<open>Inr\<close>). The
  module creates and inspects no exception of its own, so their type is a parameter.
\<close>

type_synonym ('w, 'e, 'a) js = "'w \<Rightarrow> ('e + 'a) \<times> 'w"

definition js_return :: "'a \<Rightarrow> ('w, 'e, 'a) js" where
  "js_return x = (\<lambda>w. (Inr x, w))"

definition js_bind :: "('w, 'e, 'a) js \<Rightarrow> ('a \<Rightarrow> ('w, 'e, 'b) js) \<Rightarrow> ('w, 'e, 'b) js" where
  "js_bind m f = (\<lambda>w. case m w of (Inl e, w') \<Rightarrow> (Inl e, w') | (Inr x, w') \<Rightarrow> f x w')"

text \<open>
  \<open>json.toJSON\<close> is imported from another module; the formatter takes it as a
  parameter of this type: the value, the flag \<open>pretty\<close>, and the world.
\<close>

type_synonym ('w, 'e) serializer = "jsvalue \<Rightarrow> bool \<Rightarrow> ('w, 'e, string) js"

text \<open>\<open>_showJSON\<close>: serialize with \<open>pretty = true\<close>, then indent.\<close>

definition showJSON :: "('w, 'e) serializer \<Rightarrow> jsvalue \<Rightarrow> ('w, 'e, string) js" where
  "showJSON toJSON object = js_bind (toJSON object True) (\<lambda>str. js_return (indent str))"

subsection \<open>The formatter and the adapter\<close>

text \<open>
  The record of one exchange (the field \<open>method\<close> is written \<open>method'\<close>).
  \<open>requestContent\<close> is \<open>None\<close> when the field is
  \<open>undefined\<close>; \<open>Some JNull\<close> is the value \<open>null\<close>.
\<close>

record RequestResult =
  method' :: string
  path :: string
  query :: "query option"
  requestContent :: "jsvalue option"
  responseHeaders :: jsvalue
  responseContent :: jsvalue
  statusCode :: int
  timeTaken :: int

text \<open>
  The local function \<open>log\<close> appends to the local variable \<open>out\<close>; here it returns
  the new value of \<open>out\<close>.
\<close>

definition log :: "string \<Rightarrow> string \<Rightarrow> string" where
  "log out str = out @ str"

text \<open>
  \<open>showRequestResult\<close>. The test \<open>requestContent != null\<close> is false for \<open>undefined\<close>
  and for \<open>null\<close>. The serializer is called for the request content (when present), the
  response headers and the response content, in this order; the first exception ends the
  call.
\<close>

definition showRequestResult ::
  "('w, 'e) serializer \<Rightarrow> RequestResult \<Rightarrow> ('w, 'e, string) js" where
  "showRequestResult toJSON requestResult =
     (let out0 = [];
          out1 = log out0 (''Fauna '' @ method' requestResult @ '' /'' @ path requestResult
                   @ queryString (query requestResult) @ ''\<newline>'')
      in
        js_bind
          (case requestContent requestResult of
             None \<Rightarrow> js_return out1
           | Some content \<Rightarrow>
               if content = JNull then js_return out1
               else js_bind (showJSON toJSON content)
                      (\<lambda>s. js_return (log out1 (''  Request JSON: '' @ s @ ''\<newline>''))))
          (\<lambda>out2.
             js_bind (showJSON toJSON (responseHeaders requestResult))
               (\<lambda>h.
                  let out3 = log out2 (''  Response headers: '' @ h @ ''\<newline>'') in
                  js_bind (showJSON toJSON (responseContent requestResult))
                    (\<lambda>j.
                       let out4 = log out3 (''  Response JSON: '' @ j @ ''\<newline>'') in
                       js_return
                         (log out4
                            (''  Response ('' @ Number_toString (statusCode requestResult)
                               @ ''): Network latency ''
                               @ Number_toString (timeTaken requestResult)
                               @ ''ms\<newline>''))))))"

text \<open>
  \<open>logger\<close>: the observer renders the record and returns the result of calling
  \<open>loggerFunction\<close> on the rendered string.
\<close>

definition logger ::
  "('w, 'e) serializer \<Rightarrow> (string \<Rightarrow> ('w, 'e, 'r) js) \<Rightarrow> RequestResult \<Rightarrow> ('w, 'e, 'r) js" where
  "logger toJSON loggerFunction requestResult =
     js_bind (showRequestResult toJSON requestResult) (\<lambda>logged. loggerFunction logged)"

subsection \<open>The serializer\<close>

text \<open>
  Modelled from the spec: \<open>json.toJSON\<close> (module \<open>_json\<close>, not among the sources).
  The spec has it "serialize to a human-readable JSON representation (keys in
  whatever order the serializer produces, nested structures multi-line, 2-space nesting)"
  and fail with a SerializationError on "non-JSON-serializable content (cycles,
  unsupported types)". The text is the one \<open>JSON.stringify(object, null, '  ')\<close>
  writes: \<open>gap\<close> is the unit of nesting, \<open>ind\<close> the indentation of the enclosing
  value; an empty gap gives the compact text of \<open>pretty = false\<close>. In a string the
  quote, the backslash and the control characters are escaped.
\<close>

datatype error = SerializationError

definition hex_digit :: "nat \<Rightarrow> char" where
  "hex_digit n = (if n < 10 then char_of (48 + n) else char_of (87 + n))"

definition escape_char :: "char \<Rightarrow> string" where
  "escape_char c =
     (if c = CHR 0x22 then [CHR 0x5C, CHR 0x22]
      else if c = CHR 0x5C then [CHR 0x5C, CHR 0x5C]
      else if c = CHR 0x08 then [CHR 0x5C, CHR ''b'']
      else if c = CHR 0x0C then [CHR 0x5C, CHR ''f'']
      else if c = CHR 0x0A then [CHR 0x5C, CHR ''n'']
      else if c = CHR 0x0D then [CHR 0x5C, CHR ''r'']
      else if c = CHR 0x09 then [CHR 0x5C, CHR ''t'']
      else if (of_char c :: nat) < 32
        then [CHR 0x5C, CHR ''u'', CHR ''0'', CHR ''0'',
              hex_digit (of_char c div 16), hex_digit (of_char c mod 16)]
      else [c])"

definition quote :: "string \<Rightarrow> string" where
  "quote s = CHR 0x22 # concat (map escape_char s) @ [CHR 0x22]"

fun serializable :: "jsvalue \<Rightarrow> bool" where
  "serializable (JArray xs) = (\<forall>x \<in> set xs. serializable x)"
| "serializable (JObject ps) = (\<forall>p \<in> set ps. serializable (snd p))"
| "serializable JUnserializable = False"
| "serializable _ = True"

fun serialize :: "string \<Rightarrow> string \<Rightarrow> jsvalue \<Rightarrow> string" where
  "serialize gap ind JNull = ''null''"
| "serialize gap ind (JBool b) = (if b then ''true'' else ''false'')"
| "serialize gap ind (JNumber n) = Number_toString n"
| "serialize gap ind (JString s) = quote s"
| "serialize gap ind (JArray xs) =
     (if xs = [] then ''[]''
      else if gap = [] then ''['' @ join_str '','' (map (serialize gap ind) xs) @ '']''
      else ''[\<newline>'' @ ind @ gap
             @ join_str ('',\<newline>'' @ ind @ gap) (map (serialize gap (ind @ gap)) xs)
             @ ''\<newline>'' @ ind @ '']'')"
| "serialize gap ind (JObject ps) =
     (if ps = [] then ''{}''
      else if gap = []
        then ''{'' @ join_str '','' (map (\<lambda>(k, v). quote k @ '':'' @ serialize gap ind v) ps)
               @ ''}''
      else ''{\<newline>'' @ ind @ gap
             @ join_str ('',\<newline>'' @ ind @ gap)
                 (map (\<lambda>(k, v). quote k @ '': '' @ serialize gap (ind @ gap) v) ps)
             @ ''\<newline>'' @ ind @ ''}'')"
| "serialize gap ind JUnserializable = []"

definition toJSON_model :: "jsvalue \<Rightarrow> bool \<Rightarrow> error + string" where
  "toJSON_model object pretty =
     (if serializable object
      then Inr (serialize (if pretty then ''  '' else []) [] object)
      else Inl SerializationError)"

text \<open>A serializer that is a function of its arguments and leaves the world as it is.\<close>

definition external :: "(jsvalue \<Rightarrow> bool \<Rightarrow> 'e + string) \<Rightarrow> ('w, 'e) serializer" where
  "external f object pretty = (\<lambda>w. (f object pretty, w))"

subsection \<open>The formatter on a store\<close>

text \<open>
  The argument of \<open>showRequestResult\<close> is an object: a reference into a store that the
  caller and the function share, so that a write to the object would be seen by the
  caller. Here the function is written statement by statement on the state of one call:
  the store of the objects, and the local variable \<open>out\<close> (written \<open>out'\<close>). The
  destructuring reads the object once; each call of \<open>log\<close> assigns to \<open>out\<close>; a call
  starts with \<open>out = ''\<close> and returns the value of \<open>out\<close>, and the caller is left with
  the store as the call left it. The serializer is a function of its arguments.
\<close>

type_synonym ref = nat

record frame =
  store :: "ref \<Rightarrow> RequestResult"
  out' :: string

definition read_object :: "ref \<Rightarrow> (frame, 'e, RequestResult) js" where
  "read_object requestResult = (\<lambda>s. (Inr (store s requestResult), s))"

definition log_local :: "string \<Rightarrow> (frame, 'e, unit) js" where
  "log_local str = (\<lambda>s. (Inr (), s\<lparr>out' := log (out' s) str\<rparr>))"

definition return_out :: "(frame, 'e, string) js" where
  "return_out = (\<lambda>s. (Inr (out' s), s))"

definition showRequestResult_body ::
  "(jsvalue \<Rightarrow> bool \<Rightarrow> 'e + string) \<Rightarrow> ref \<Rightarrow> (frame, 'e, string) js" where
  "showRequestResult_body toJSON requestResult =
     js_bind (read_object requestResult) (\<lambda>r.
     js_bind (log_local (''Fauna '' @ method' r @ '' /'' @ path r @ queryString (query r)
                @ ''\<newline>'')) (\<lambda>_.
     js_bind
       (case requestContent r of
          None \<Rightarrow> js_return ()
        | Some content \<Rightarrow>
            if content = JNull then js_return ()
            else js_bind (showJSON (external toJSON) content)
                   (\<lambda>s. log_local (''  Request JSON: '' @ s @ ''\<newline>''))) (\<lambda>_.
     js_bind (showJSON (external toJSON) (responseHeaders r)) (\<lambda>h.
     js_bind (log_local (''  Response headers: '' @ h @ ''\<newline>'')) (\<lambda>_.
     js_bind (showJSON (external toJSON) (responseContent r)) (\<lambda>j.
     js_bind (log_local (''  Response JSON: '' @ j @ ''\<newline>'')) (\<lambda>_.
     js_bind (log_local (''  Response ('' @ Number_toString (statusCode r)
                @ ''): Network latency '' @ Number_toString (timeTaken r)
                @ ''ms\<newline>'')) (\<lambda>_.
     return_out))))))))"

definition showRequestResult_call ::
  "(jsvalue \<Rightarrow> bool \<Rightarrow> 'e + string) \<Rightarrow> ref \<Rightarrow> (ref \<Rightarrow> RequestResult)
     \<Rightarrow> ('e + string) \<times> (ref \<Rightarrow> RequestResult)" where
  "showRequestResult_call toJSON requestResult objects =
     (case showRequestResult_body toJSON requestResult \<lparr>store = objects, out' = []\<rparr> of
        (result, s) \<Rightarrow> (result, store s))"

text \<open>A statement that leaves the store as it is, whatever the state it runs in.\<close>

definition keeps_store :: "(frame, 'e, 'a) js \<Rightarrow> bool" where
  "keeps_store m = (\<forall>s. store (snd (m s)) = store s)"

text \<open>
  For contrast, a procedure that returns the path of the object and clears it, as
  \<open>requestResult.path = ''\<close> would.
\<close>

definition clearing_body :: "ref \<Rightarrow> (frame, 'e, string) js" where
  "clearing_body requestResult =
     (\<lambda>s. (Inr (path (store s requestResult)),
            s\<lparr>store := (store s)(requestResult := (store s requestResult)\<lparr>path := []\<rparr>)\<rparr>))"

subsection \<open>The parser\<close>

text \<open>
  Modelled from the spec: the JSON parser by which the payload is "parsed back" (the
  sources contain none). It reads the JSON grammar: whitespace between tokens, the
  literals \<open>null\<close>, \<open>true\<close> and \<open>false\<close>, integer numbers without leading zero (a
  fraction or exponent is refused: the values of this model have integers only), strings
  with their escapes, arrays and objects. \<open>parse_value\<close> returns the value and the rest of
  the text; its first argument bounds the depth of the recursion, and \<open>parseJSON\<close>
  gives it the length of the text, which is enough for every text the serializer writes.
\<close>

definition is_digit :: "char \<Rightarrow> bool" where
  "is_digit c = (48 \<le> (of_char c :: nat) \<and> (of_char c :: nat) \<le> 57)"

definition is_ws :: "char \<Rightarrow> bool" where
  "is_ws c = (c = CHR '' '' \<or> c = CHR 0x0A \<or> c = CHR 0x0D \<or> c = CHR 0x09)"

definition skip_ws :: "string \<Rightarrow> string" where
  "skip_ws s = dropWhile is_ws s"

definition hex_value :: "char \<Rightarrow> nat option" where
  "hex_value c =
     (if is_digit c then Some (of_char c - 48)
      else if 97 \<le> (of_char c :: nat) \<and> (of_char c :: nat) \<le> 102 then Some (of_char c - 87)
      else if 65 \<le> (of_char c :: nat) \<and> (of_char c :: nat) \<le> 70 then Some (of_char c - 55)
      else None)"

definition unicode_escape :: "string \<Rightarrow> char option" where
  "unicode_escape hex =
     (case map hex_value hex of
        [Some a, Some b, Some c, Some d] \<Rightarrow>
          (let code = 4096 * a + 256 * b + 16 * c + d
           in if code < 256 then Some (char_of code) else None)
      | _ \<Rightarrow> None)"

definition simple_escape :: "char \<Rightarrow> char option" where
  "simple_escape e =
     (if e = CHR 0x22 then Some (CHR 0x22)
      else if e = CHR 0x5C then Some (CHR 0x5C)
      else if e = CHR ''/'' then Some (CHR ''/'')
      else if e = CHR ''b'' then Some (CHR 0x08)
      else if e = CHR ''f'' then Some (CHR 0x0C)
      else if e = CHR ''n'' then Some (CHR 0x0A)
      else if e = CHR ''r'' then Some (CHR 0x0D)
      else if e = CHR ''t'' then Some (CHR 0x09)
      else None)"

definition and_then :: "char option \<Rightarrow> (string \<times> string) option \<Rightarrow> (string \<times> string) option" where
  "and_then c r =
     (case c of None \<Rightarrow> None
      | Some ch \<Rightarrow> (case r of None \<Rightarrow> None | Some (str, rest) \<Rightarrow> Some (ch # str, rest)))"

fun parse_chars :: "string \<Rightarrow> (string \<times> string) option" where
  "parse_chars [] = None"
| "parse_chars (c # s) =
     (if c = CHR 0x22 then Some ([], s)
      else if c = CHR 0x5C then
        (case s of
           [] \<Rightarrow> None
         | e # t \<Rightarrow>
             if e = CHR ''u'' then and_then (unicode_escape (take 4 t)) (parse_chars (drop 4 t))
             else and_then (simple_escape e) (parse_chars t))
      else if (of_char c :: nat) < 32 then None
      else and_then (Some c) (parse_chars s))"

definition nat_of_digits :: "string \<Rightarrow> nat" where
  "nat_of_digits ds = foldl (\<lambda>n c. 10 * n + (of_char c - 48)) 0 ds"

definition parse_number :: "string \<Rightarrow> (jsvalue \<times> string) option" where
  "parse_number s =
     (let negative = (s \<noteq> [] \<and> hd s = CHR ''-'');
          s1 = (if negative then tl s else s);
          ds = takeWhile is_digit s1;
          rest = dropWhile is_digit s1
      in if ds = [] then None
         else if 1 < length ds \<and> hd ds = CHR ''0'' then None
         else if rest \<noteq> [] \<and> hd rest \<in> {CHR ''.'', CHR ''e'', CHR ''E''} then None
         else Some (JNumber (if negative then - int (nat_of_digits ds) else int (nat_of_digits ds)),
                    rest))"

fun parse_value :: "nat \<Rightarrow> string \<Rightarrow> (jsvalue \<times> string) option"
and parse_elements :: "nat \<Rightarrow> string \<Rightarrow> (jsvalue list \<times> string) option"
and parse_members :: "nat \<Rightarrow> string \<Rightarrow> ((string \<times> jsvalue) list \<times> string) option" where
  "parse_value 0 s = None"
| "parse_value (Suc n) s =
     (case skip_ws s of
        [] \<Rightarrow> None
      | c # t \<Rightarrow>
          if c = CHR ''{'' then
            (if take 1 (skip_ws t) = ''}'' then Some (JObject [], drop 1 (skip_ws t))
             else map_option (\<lambda>(ps, r). (JObject ps, r)) (parse_members n t))
          else if c = CHR ''['' then
            (if take 1 (skip_ws t) = '']'' then Some (JArray [], drop 1 (skip_ws t))
             else map_option (\<lambda>(vs, r). (JArray vs, r)) (parse_elements n t))
          else if c = CHR 0x22 then map_option (\<lambda>(str, r). (JString str, r)) (parse_chars t)
          else if take 4 (c # t) = ''true'' then Some (JBool True, drop 4 (c # t))
          else if take 5 (c # t) = ''false'' then Some (JBool False, drop 5 (c # t))
          else if take 4 (c # t) = ''null'' then Some (JNull, drop 4 (c # t))
          else parse_number (c # t))"
| "parse_elements 0 s = None"
| "parse_elements (Suc n) s =
     (case parse_value n s of
        None \<Rightarrow> None
      | Some (v, r) \<Rightarrow>
          (case skip_ws r of
             [] \<Rightarrow> None
           | c # t \<Rightarrow>
               if c = CHR '','' then map_option (\<lambda>(vs, r'). (v # vs, r')) (parse_elements n t)
               else if c = CHR '']'' then Some ([v], t)
               else None))"
| "parse_members 0 s = None"
| "parse_members (Suc n) s =
     (case skip_ws s of
        [] \<Rightarrow> None
      | q # t \<Rightarrow>
          if q \<noteq> CHR 0x22 then None
          else
            (case parse_chars t of
               None \<Rightarrow> None
             | Some (k, r) \<Rightarrow>
                 if take 1 (skip_ws r) \<noteq> '':'' then None
                 else
                   (case parse_value n (drop 1 (skip_ws r)) of
                      None \<Rightarrow> None
                    | Some (v, r') \<Rightarrow>
                        (case skip_ws r' of
                           [] \<Rightarrow> None
                         | c # t' \<Rightarrow>
                             if c = CHR '','' then
                               map_option (\<lambda>(ps, r''). ((k, v) # ps, r'')) (parse_members n t')
                             else if c = CHR ''}'' then Some ([(k, v)], t')
                             else None))))"

declare parse_value.simps [simp del] parse_elements.simps [simp del]
  parse_members.simps [simp del]

definition parseJSON :: "string \<Rightarrow> jsvalue option" where
  "parseJSON s =
     (case parse_value (Suc (length s)) s of
        None \<Rightarrow> None
      | Some (v, rest) \<Rightarrow> if skip_ws rest = [] then Some v else None)"

text \<open>
  For the proof that the parser reads back what the serializer writes: texts of
  whitespace, the characters a value can begin with, what may follow a number, and the
  depth of recursion that a value needs.
\<close>

definition ws_only :: "string \<Rightarrow> bool" where
  "ws_only s = (\<forall>c \<in> set s. is_ws c)"

definition value_start :: "char \<Rightarrow> bool" where
  "value_start c =
     (is_digit c \<or> c \<in> {CHR ''n'', CHR ''t'', CHR ''f'', CHR ''-'', CHR 0x22, CHR ''['', CHR ''{''})"

definition number_end :: "string \<Rightarrow> bool" where
  "number_end rest =
     (rest = [] \<or> \<not> is_digit (hd rest) \<and> hd rest \<notin> {CHR ''.'', CHR ''e'', CHR ''E''})"

fun fuel_of :: "jsvalue \<Rightarrow> nat" where
  "fuel_of (JArray xs) = Suc (sum_list (map (\<lambda>x. Suc (fuel_of x)) xs))"
| "fuel_of (JObject ps) = Suc (sum_list (map (\<lambda>p. Suc (fuel_of (snd p))) ps))"
| "fuel_of _ = 1"

subsection \<open>Vocabulary of the properties\<close>

definition header_line :: "RequestResult \<Rightarrow> string" where
  "header_line r =
     ''Fauna '' @ method' r @ '' /'' @ path r @ queryString (query r) @ ''\<newline>''"

definition status_line :: "RequestResult \<Rightarrow> string" where
  "status_line r =
     ''  Response ('' @ Number_toString (statusCode r) @ ''): Network latency ''
       @ Number_toString (timeTaken r) @ ''ms\<newline>''"

text \<open>The request content is present when it is neither \<open>undefined\<close> nor \<open>null\<close>.\<close>

definition present :: "jsvalue option \<Rightarrow> bool" where
  "present c = (c \<noteq> None \<and> c \<noteq> Some JNull)"

text \<open>
  The output has the payload in its block of the request content: after the header line
  and the label, and before the newline and the label of the response headers.
\<close>

definition request_json_payload :: "RequestResult \<Rightarrow> string \<Rightarrow> string \<Rightarrow> bool" where
  "request_json_payload r out payload =
     (\<exists>rest. out = header_line r @ ''  Request JSON: '' @ payload @ ''\<newline>''
                 @ ''  Response headers: '' @ rest)"

definition leading_spaces :: "string \<Rightarrow> nat" where
  "leading_spaces l = length (takeWhile (\<lambda>c. c = CHR '' '') l)"

text \<open>A logging function that appends what it receives to the world, a list of strings.\<close>

definition recording_sink :: "string \<Rightarrow> (string list, 'e, unit) js" where
  "recording_sink logged = (\<lambda>w. (Inr (), w @ [logged]))"

text \<open>A logging function that does nothing and returns a given value.\<close>

definition returning_sink :: "'r \<Rightarrow> string \<Rightarrow> ('w, 'e, 'r) js" where
  "returning_sink v logged = (\<lambda>w. (Inr v, w))"

definition example_get :: RequestResult where
  "example_get =
     \<lparr> method' = ''GET'', path = ''classes'',
       query = Some [(''size'', ''10''), (''ts'', ''123'')],
       requestContent = None,
       responseHeaders = JObject [],
       responseContent = JArray [],
       statusCode = 200, timeTaken = 7 \<rparr>"

definition example_get_out :: string where
  "example_get_out =
     ''Fauna GET /classes?size=10&ts=123\<newline>''
     @ ''  Response headers: {}\<newline>''
     @ ''  Response JSON: []\<newline>''
     @ ''  Response (200): Network latency 7ms\<newline>''"

text \<open>The scenario of the spec: a POST with a request body.\<close>

definition example_post :: RequestResult where
  "example_post =
     \<lparr> method' = ''POST'', path = [], query = None,
       requestContent = Some (JObject [(''data'', JObject [(''name'', JString ''Fido'')])]),
       responseHeaders = JObject [(''content-type'', JString ''application/json'')],
       responseContent = JObject [(''resource'', JObject [(''ref'', JString ''classes/dogs/1'')])],
       statusCode = 201, timeTaken = 13 \<rparr>"

definition dq :: string where
  "dq = [CHR 0x22]"

definition example_post_out :: string where
  "example_post_out =
     ''Fauna POST /\<newline>''
     @ ''  Request JSON: {\<newline>''
     @ ''    '' @ dq @ ''data'' @ dq @ '': {\<newline>''
     @ ''      '' @ dq @ ''name'' @ dq @ '': '' @ dq @ ''Fido'' @ dq @ ''\<newline>''
     @ ''    }\<newline>''
     @ ''  }\<newline>''
     @ ''  Response headers: {\<newline>''
     @ ''    '' @ dq @ ''content-type'' @ dq @ '': '' @ dq @ ''application/json'' @ dq @ ''\<newline>''
     @ ''  }\<newline>''
     @ ''  Response JSON: {\<newline>''
     @ ''    '' @ dq @ ''resource'' @ dq @ '': {\<newline>''
     @ ''      '' @ dq @ ''ref'' @ dq @ '': '' @ dq @ ''classes/dogs/1'' @ dq @ ''\<newline>''
     @ ''    }\<newline>''
     @ ''  }\<newline>''
     @ ''  Response (201): Network latency 13ms\<newline>''"

definition example_cyclic :: RequestResult where
  "example_cyclic =
     \<lparr> method' = ''POST'', path = [], query = None,
       requestContent = Some (JObject [(''self'', JUnserializable)]),
       responseHeaders = JObject [],
       responseContent = JNull,
       statusCode = 200, timeTaken = 7 \<rparr>"

text \<open>The lines of an output that begin with the label of the request content.\<close>

definition request_json_lines :: "string \<Rightarrow> string list" where
  "request_json_lines out = filter (prefix ''  Request JSON:'') (split_str CHR ''\<newline>'' out)"

text \<open>The method, the path and the keys and values of the query contain no newline.\<close>

definition single_line_header :: "RequestResult \<Rightarrow> bool" where
  "single_line_header r =
     (CHR ''\<newline>'' \<notin> set (method' r) \<and> CHR ''\<newline>'' \<notin> set (path r) \<and>
      (case query r of
         None \<Rightarrow> True
       | Some q \<Rightarrow> \<forall>(k, v) \<in> set q. CHR ''\<newline>'' \<notin> set k \<and> CHR ''\<newline>'' \<notin> set v))"

text \<open>
  The shape of the lines of a serialized value: \<open>after_newlines P s\<close> says that what
  follows each newline of \<open>s\<close> satisfies \<open>P\<close>; \<open>closes_or_nests ind\<close> holds of a text
  that begins with the indentation \<open>ind\<close> and then a space or a closing bracket.
\<close>

fun after_newlines :: "(string \<Rightarrow> bool) \<Rightarrow> string \<Rightarrow> bool" where
  "after_newlines P [] = True"
| "after_newlines P (c # s) = ((c = CHR ''\<newline>'' \<longrightarrow> P s) \<and> after_newlines P s)"

definition closes_or_nests :: "string \<Rightarrow> string \<Rightarrow> bool" where
  "closes_or_nests ind s =
     (prefix (ind @ '' '') s \<or> prefix (ind @ ''}'') s \<or> prefix (ind @ '']'') s)"

text \<open>A path with a newline in it, and a request with content.\<close>

definition example_injected :: RequestResult where
  "example_injected =
     \<lparr> method' = ''GET'', path = ''x\<newline>  Request JSON: y'', query = None,
       requestContent = None,
       responseHeaders = JObject [],
       responseContent = JArray [],
       statusCode = 200, timeTaken = 7 \<rparr>"

definition example_injected_out :: string where
  "example_injected_out =
     ''Fauna GET /x\<newline>''
     @ ''  Request JSON: y\<newline>''
     @ ''  Response headers: {}\<newline>''
     @ ''  Response JSON: []\<newline>''
     @ ''  Response (200): Network latency 7ms\<newline>''"

definition example_put :: RequestResult where
  "example_put =
     \<lparr> method' = ''PUT'', path = ''classes/dogs/1'', query = None,
       requestContent = Some (JArray [JNumber 1, JBool True]),
       responseHeaders = JObject [],
       responseContent = JArray [],
       statusCode = 200, timeTaken = 7 \<rparr>"

definition example_put_out :: string where
  "example_put_out =
     ''Fauna PUT /classes/dogs/1\<newline>''
     @ ''  Request JSON: [\<newline>''
     @ ''    1,\<newline>''
     @ ''    true\<newline>''
     @ ''  ]\<newline>''
     @ ''  Response headers: {}\<newline>''
     @ ''  Response JSON: []\<newline>''
     @ ''  Response (200): Network latency 7ms\<newline>''"

section \<open>Properties\<close>

subsection \<open>Splitting and joining\<close>

lemma split_str_not_Nil [simp]: "split_str c s \<noteq> []"
  by (induction s) (auto split: list.splits)

lemma split_str_append:
  "split_str c (a @ c # b) = split_str c a @ split_str c b"
  by (induction a) (auto split: list.splits)

lemma split_str_no_sep: "c \<notin> set s \<Longrightarrow> split_str c s = [s]"
  by (induction s) auto

lemma split_str_pieces: "l \<in> set (split_str c s) \<Longrightarrow> c \<notin> set l"
  by (induction s arbitrary: l) (auto split: list.splits if_splits)

lemma join_str_Cons: "ys \<noteq> [] \<Longrightarrow> join_str sep (x # ys) = x @ sep @ join_str sep ys"
  by (cases ys) auto

lemma join_str_append:
  "xs \<noteq> [] \<Longrightarrow> ys \<noteq> [] \<Longrightarrow>
   join_str sep (xs @ ys) = join_str sep xs @ sep @ join_str sep ys"
  by (induction xs rule: join_str.induct [of _ sep]) (auto simp: join_str_Cons)

lemma split_join_Cons:
  "c \<notin> set x \<Longrightarrow> \<forall>l \<in> set xs. c \<notin> set l \<Longrightarrow> c \<notin> set p \<Longrightarrow>
   split_str c (join_str (c # p) (x # xs)) = x # map (\<lambda>l. p @ l) xs"
proof (induction xs arbitrary: x)
  case Nil
  then show ?case by (simp add: split_str_no_sep)
next
  case (Cons y ys)
  have "split_str c (x @ c # p @ join_str (c # p) (y # ys)) =
        split_str c x @ split_str c (p @ join_str (c # p) (y # ys))"
    by (rule split_str_append)
  also have "split_str c (p @ join_str (c # p) (y # ys)) = (p @ y) # map (\<lambda>l. p @ l) ys"
  proof -
    have "split_str c (join_str (c # p) ((p @ y) # ys)) = (p @ y) # map (\<lambda>l. p @ l) ys"
      using Cons.prems by (intro Cons.IH) auto
    moreover have "join_str (c # p) ((p @ y) # ys) = p @ join_str (c # p) (y # ys)"
      by (cases ys) auto
    ultimately show ?thesis by simp
  qed
  finally show ?case using Cons.prems by (simp add: split_str_no_sep)
qed

lemma lines_indent:
  "split_str CHR ''\<newline>'' (indent s) =
     hd (split_str CHR ''\<newline>'' s) # map (\<lambda>l. ''  '' @ l) (tl (split_str CHR ''\<newline>'' s))"
proof (cases "split_str CHR ''\<newline>'' s")
  case Nil
  then show ?thesis by simp
next
  case (Cons l ls)
  then have "\<forall>x \<in> set (l # ls). CHR ''\<newline>'' \<notin> set x"
    using split_str_pieces [of _ "CHR ''\<newline>''" s] by auto
  then show ?thesis
    unfolding indent_def indentStr_def Cons by (simp add: split_join_Cons)
qed

lemma indent_no_newline: "CHR ''\<newline>'' \<notin> set s \<Longrightarrow> indent s = s"
  by (simp add: indent_def split_str_no_sep)

lemma indent_append:
  "indent (a @ CHR ''\<newline>'' # b) = indent a @ CHR ''\<newline>'' # ''  '' @ indent b"
  by (simp add: indent_def split_str_append join_str_append indentStr_def)

subsection \<open>The indentation helper\<close>

text \<open>
  C10: \<open>_indent\<close> leaves a string without newline as it is, and
  \<open>_indent(a + '\n' + b) = _indent(a) + '\n' + '  ' + _indent(b)\<close> for all strings
  \<open>a\<close> and \<open>b\<close>.
\<close>

theorem indent_algebra:
  "(CHR ''\<newline>'' \<notin> set s \<longrightarrow> indent s = s) \<and>
   indent (a @ ''\<newline>'' @ b) = indent a @ ''\<newline>'' @ ''  '' @ indent b"
  by (simp add: indent_no_newline indent_append)

theorem indent_algebra_witness:
  "CHR ''\<newline>'' \<notin> set ''{}'' \<and> indent ''{}'' = ''{}'' \<and>
   indent (''{'' @ ''\<newline>'' @ ''}'') = ''{\<newline>  }''"
  using indent_algebra [of "''{}''" "''{''" "''}''"] by (simp add: indent_def indentStr_def)

text \<open>
  C5: the lines of \<open>_indent(str)\<close> are the lines of \<open>str\<close>, the first one unchanged
  and every other one with two spaces put in front of it, so that each line but the first
  has two more leading spaces than the line of \<open>str\<close> it comes from. This holds of
  every string, in particular of every string the serializer returns.
\<close>

theorem indent_lines:
  "split_str CHR ''\<newline>'' (indent s) =
     (case split_str CHR ''\<newline>'' s of [] \<Rightarrow> [] | l # ls \<Rightarrow> l # map (\<lambda>x. ''  '' @ x) ls) \<and>
   map leading_spaces (tl (split_str CHR ''\<newline>'' (indent s))) =
     map (\<lambda>l. leading_spaces l + 2) (tl (split_str CHR ''\<newline>'' s)) \<and>
   length (split_str CHR ''\<newline>'' (indent s)) = length (split_str CHR ''\<newline>'' s)"
  by (simp add: lines_indent leading_spaces_def split: list.splits)

subsection \<open>The query string\<close>

lemma lookup_distinct: "distinct (map fst q) \<Longrightarrow> (k, v) \<in> set q \<Longrightarrow> lookup q k = v"
  by (simp add: lookup_def)

lemma queryString_pairs:
  assumes "distinct (map fst q)"
  shows "map (\<lambda>key. key @ ''='' @ lookup q key) (Object_keys q) =
         map (\<lambda>(k, v). k @ ''='' @ v) q"
proof -
  have "map (\<lambda>key. key @ ''='' @ lookup q key) (Object_keys q) =
        map (\<lambda>kv. fst kv @ ''='' @ lookup q (fst kv)) q"
    by (simp add: Object_keys_def comp_def)
  also have "\<dots> = map (\<lambda>(k, v). k @ ''='' @ v) q"
    using assms by (intro map_cong refl) (auto simp: lookup_distinct)
  finally show ?thesis .
qed

text \<open>
  C2: \<open>_queryString\<close> returns the empty string for a query that is \<open>null\<close> or has no
  key; otherwise a question mark followed by one \<open>key=value\<close> for each property of the
  query, in the order of its keys, joined by \<open>&\<close>, key and value as they are. (The keys
  of an object are distinct.)
\<close>

theorem queryString_spec:
  "queryString None = [] \<and> queryString (Some []) = [] \<and>
   (q \<noteq> [] \<and> distinct (map fst q) \<longrightarrow>
      queryString (Some q) = ''?'' @ join_str ''&'' (map (\<lambda>(k, v). k @ ''='' @ v) q))"
proof (intro conjI impI)
  show "queryString None = []" by (simp add: queryString_def)
  show "queryString (Some []) = []" by (simp add: queryString_def Object_keys_def)
  assume a: "q \<noteq> [] \<and> distinct (map fst q)"
  then have "Object_keys q \<noteq> []" by (simp add: Object_keys_def)
  with a show "queryString (Some q) = ''?'' @ join_str ''&'' (map (\<lambda>(k, v). k @ ''='' @ v) q)"
    using queryString_pairs [of q] by (simp add: queryString_def Let_def)
qed

theorem queryString_spec_witness:
  "[(''size'', ''10''), (''ts'', ''123'')] \<noteq> [] \<and>
   distinct (map fst [(''size'', ''10''), (''ts'', ''123'')]) \<and>
   queryString (Some [(''size'', ''10''), (''ts'', ''123'')]) = ''?size=10&ts=123''"
  using queryString_spec [of "[(''size'', ''10''), (''ts'', ''123'')]"] by simp

subsection \<open>Calls and their outcomes\<close>

lemma js_bind_Inr:
  "js_bind m f w = (Inr y, w') \<longleftrightarrow> (\<exists>x w1. m w = (Inr x, w1) \<and> f x w1 = (Inr y, w'))"
  by (auto simp: js_bind_def split: prod.splits sum.splits)

lemma js_bind_Inl:
  "js_bind m f w = (Inl e, w') \<longleftrightarrow>
     m w = (Inl e, w') \<or> (\<exists>x w1. m w = (Inr x, w1) \<and> f x w1 = (Inl e, w'))"
  by (auto simp: js_bind_def split: prod.splits sum.splits)

lemma js_return_eq: "js_return x w = (r, w') \<longleftrightarrow> r = Inr x \<and> w' = w"
  by (auto simp: js_return_def)

lemma showJSON_Inr:
  "showJSON toJSON v w = (Inr s, w') \<longleftrightarrow>
     (\<exists>str. toJSON v True w = (Inr str, w') \<and> s = indent str)"
  by (auto simp: showJSON_def js_bind_Inr js_return_eq)

lemma showJSON_Inl:
  "showJSON toJSON v w = (Inl e, w') \<longleftrightarrow> toJSON v True w = (Inl e, w')"
  by (auto simp: showJSON_def js_bind_Inl js_return_eq)

text \<open>The calls that return: each call of the serializer returns, and the output is the
  concatenation of the segments.\<close>

lemma showRequestResult_Inr:
  "showRequestResult toJSON r w = (Inr out, w') \<longleftrightarrow>
     (\<exists>req w1 h w2 j.
        (if present (requestContent r)
         then \<exists>c s. requestContent r = Some c \<and> toJSON c True w = (Inr s, w1) \<and>
                req = ''  Request JSON: '' @ indent s @ ''\<newline>''
         else req = [] \<and> w1 = w) \<and>
        toJSON (responseHeaders r) True w1 = (Inr h, w2) \<and>
        toJSON (responseContent r) True w2 = (Inr j, w') \<and>
        out = header_line r @ req @ ''  Response headers: '' @ indent h @ ''\<newline>''
                @ ''  Response JSON: '' @ indent j @ ''\<newline>'' @ status_line r)"
  unfolding showRequestResult_def Let_def log_def
  by (cases "requestContent r")
     (auto simp: js_bind_Inr js_return_eq showJSON_Inr present_def header_line_def
        status_line_def)

text \<open>The calls that throw: the exception is the one of the first call of the serializer
  that throws.\<close>

lemma showRequestResult_Inl:
  "showRequestResult toJSON r w = (Inl e, w') \<longleftrightarrow>
     (\<exists>c. requestContent r = Some c \<and> c \<noteq> JNull \<and> toJSON c True w = (Inl e, w')) \<or>
     (\<exists>w1. (if present (requestContent r)
             then \<exists>c s. requestContent r = Some c \<and> toJSON c True w = (Inr s, w1)
             else w1 = w) \<and>
        (toJSON (responseHeaders r) True w1 = (Inl e, w') \<or>
         (\<exists>h w2. toJSON (responseHeaders r) True w1 = (Inr h, w2) \<and>
            toJSON (responseContent r) True w2 = (Inl e, w'))))"
  unfolding showRequestResult_def Let_def log_def
  by (cases "requestContent r")
     (auto simp: js_bind_Inl js_bind_Inr js_return_eq showJSON_Inr showJSON_Inl present_def)

lemma showRequestResult_world:
  assumes "\<And>v p w. snd (toJSON v p w) = w"
  shows "snd (showRequestResult toJSON r w) = w"
proof (cases "showRequestResult toJSON r w")
  case (Pair res w')
  have eq: "toJSON v p u = (x, u') \<Longrightarrow> u' = u" for v p u x u'
    using assms [of v p u] by simp
  show ?thesis
  proof (cases res)
    case (Inl e)
    with Pair have "showRequestResult toJSON r w = (Inl e, w')" by simp
    then have "w' = w"
      unfolding showRequestResult_Inl by (auto split: if_splits dest!: eq)
    with Pair show ?thesis by simp
  next
    case (Inr out)
    with Pair have "showRequestResult toJSON r w = (Inr out, w')" by simp
    then have "w' = w"
      unfolding showRequestResult_Inr by (auto split: if_splits dest!: eq)
    with Pair show ?thesis by simp
  qed
qed

lemma example_get_renders:
  "showRequestResult (external toJSON_model) example_get (w :: 'w :: equal) =
     (Inr example_get_out, w)"
  by code_simp

text \<open>The modelled serializer gives the output that the spec's scenario describes.\<close>

lemma example_post_renders:
  "showRequestResult (external toJSON_model) example_post (w :: 'w :: equal) =
     (Inr example_post_out, w)"
  by code_simp

lemma example_get_status:
  "''  Response ('' @ Number_toString (statusCode example_get) @ ''): Network latency ''
     @ Number_toString (timeTaken example_get) @ ''ms\<newline>'' =
   ''  Response (200): Network latency 7ms\<newline>''"
  by code_simp

subsection \<open>The formatter\<close>

text \<open>
  C1: the output of \<open>showRequestResult\<close> begins with the header line: \<open>Fauna\<close>, a
  space, the method, a space, a slash, the path, the query string (which may be empty)
  and a newline.
\<close>

theorem header_first:
  "showRequestResult toJSON r w = (Inr out, w') \<Longrightarrow>
   prefix (''Fauna '' @ method' r @ '' /'' @ path r @ queryString (query r) @ ''\<newline>'') out"
  by (auto simp: showRequestResult_Inr header_line_def)

theorem header_first_witness:
  "showRequestResult (external toJSON_model) example_get () = (Inr example_get_out, ()) \<and>
   prefix ''Fauna GET /classes?size=10&ts=123\<newline>'' example_get_out"
  using header_first [OF example_get_renders [of "()"]] example_get_renders [of "()"]
  by (simp add: example_get_def queryString_def Object_keys_def lookup_def)

text \<open>
  C4: after the header line and the line of the request content, if there is one, the
  output has the line of the response headers, the line of the response content and the
  status line, each indented by two spaces and ended by a newline; the output ends with
  \<open>'  Response (' + statusCode + '): Network latency ' + timeTaken + 'ms\n'\<close>.
\<close>

theorem response_lines:
  "showRequestResult toJSON r w = (Inr out, w') \<Longrightarrow>
   \<exists>req h j.
     out = ''Fauna '' @ method' r @ '' /'' @ path r @ queryString (query r) @ ''\<newline>''
           @ req
           @ ''  Response headers: '' @ indent h @ ''\<newline>''
           @ ''  Response JSON: '' @ indent j @ ''\<newline>''
           @ ''  Response ('' @ Number_toString (statusCode r) @ ''): Network latency ''
           @ Number_toString (timeTaken r) @ ''ms\<newline>'' \<and>
     (if present (requestContent r)
      then \<exists>s. req = ''  Request JSON: '' @ indent s @ ''\<newline>''
      else req = []) \<and>
     suffix (''  Response ('' @ Number_toString (statusCode r) @ ''): Network latency ''
             @ Number_toString (timeTaken r) @ ''ms\<newline>'') out"
proof -
  assume a: "showRequestResult toJSON r w = (Inr out, w')"
  then obtain req h j where
    out: "out = header_line r @ req @ ''  Response headers: '' @ indent h @ ''\<newline>''
                @ ''  Response JSON: '' @ indent j @ ''\<newline>'' @ status_line r"
    and req: "if present (requestContent r)
      then \<exists>s. req = ''  Request JSON: '' @ indent s @ ''\<newline>''
      else req = []"
    unfolding showRequestResult_Inr by (cases "present (requestContent r)") auto
  have "suffix (status_line r) out"
    unfolding out suffix_def by (metis append.assoc)
  with out req show ?thesis
    unfolding header_line_def status_line_def
    by (intro exI [of _ req] exI [of _ h] exI [of _ j]) simp
qed

theorem response_lines_witness:
  "showRequestResult (external toJSON_model) example_get () = (Inr example_get_out, ()) \<and>
   suffix ''  Response (200): Network latency 7ms\<newline>'' example_get_out"
proof -
  have h: "showRequestResult (external toJSON_model) example_get () = (Inr example_get_out, ())"
    by (rule example_get_renders)
  from response_lines [OF h] show ?thesis
    unfolding example_get_status using h by blast
qed

subsection \<open>Rendering and the store\<close>

lemma keeps_store_bind:
  "keeps_store m \<Longrightarrow> (\<And>x. keeps_store (f x)) \<Longrightarrow> keeps_store (js_bind m f)"
  unfolding keeps_store_def js_bind_def
  by (auto split: prod.splits sum.splits) (metis snd_conv)+

lemma keeps_store_return: "keeps_store (js_return x)"
  by (simp add: keeps_store_def js_return_def)

lemma keeps_store_read: "keeps_store (read_object a)"
  by (simp add: keeps_store_def read_object_def)

lemma keeps_store_log: "keeps_store (log_local str)"
  by (simp add: keeps_store_def log_local_def)

lemma keeps_store_out: "keeps_store return_out"
  by (simp add: keeps_store_def return_out_def)

lemma keeps_store_showJSON: "keeps_store (showJSON (external f) v)"
  unfolding showJSON_def
  by (intro keeps_store_bind keeps_store_return) (simp add: keeps_store_def external_def)

text \<open>No statement of the body writes to the store.\<close>

lemma keeps_store_body: "keeps_store (showRequestResult_body f a)"
  unfolding showRequestResult_body_def
  by (intro keeps_store_bind keeps_store_return keeps_store_read keeps_store_log
      keeps_store_out keeps_store_showJSON)
     (auto split: option.splits
        intro!: keeps_store_bind keeps_store_return keeps_store_log keeps_store_showJSON)

text \<open>The property is one of this body, not of every procedure on the store.\<close>

lemma clearing_body_changes_store:
  "\<not> keeps_store (clearing_body 0 :: (frame, unit, string) js)"
proof
  assume "keeps_store (clearing_body 0 :: (frame, unit, string) js)"
  then have "store (snd ((clearing_body 0 :: (frame, unit, string) js)
      \<lparr>store = \<lambda>_. example_get, out' = []\<rparr>)) = (\<lambda>_. example_get)"
    by (simp add: keeps_store_def)
  then have "((\<lambda>_. example_get)(0 := example_get\<lparr>path := []\<rparr>)) (0 :: ref) = example_get"
    by (simp add: clearing_body_def)
  then have "path (example_get\<lparr>path := []\<rparr>) = path example_get"
    by simp
  then show False by (simp add: example_get_def)
qed

text \<open>
  The body computes what \<open>showRequestResult\<close> above computes from the fields of the
  object, appended to the value that \<open>out\<close> had.
\<close>

lemma showRequestResult_body_result:
  "fst (showRequestResult_body f a s) =
     map_sum id (\<lambda>t. out' s @ t) (fst (showRequestResult (external f) (store s a) w))"
  unfolding showRequestResult_body_def showRequestResult_def showJSON_def Let_def log_def
    js_bind_def js_return_def read_object_def log_local_def return_out_def external_def
  by (auto split: option.splits sum.splits)

lemma showRequestResult_call_result:
  "fst (showRequestResult_call f a objects) =
     fst (showRequestResult (external f) (objects a) w)"
proof -
  have "fst (showRequestResult_call f a objects) =
      fst (showRequestResult_body f a \<lparr>store = objects, out' = []\<rparr>)"
    by (simp add: showRequestResult_call_def split_beta)
  also have "\<dots> = map_sum id (\<lambda>t. t) (fst (showRequestResult (external f) (objects a) w))"
    using showRequestResult_body_result [of f a "\<lparr>store = objects, out' = []\<rparr>" w] by simp
  also have "\<dots> = fst (showRequestResult (external f) (objects a) w)"
    by (cases "fst (showRequestResult (external f) (objects a) w)") simp_all
  finally show ?thesis .
qed

text \<open>
  C8: rendering changes no state and is repeatable. With the record an object in a store
  that the caller shares, and the serializer a function of its arguments: the store after
  a call of \<open>showRequestResult\<close> is the store before it, so the record and every other
  object are as they were, and rendering the same record again, in the store that the
  first call left, returns the same string (or throws the same exception).
\<close>

theorem render_leaves_store:
  "snd (showRequestResult_call toJSON requestResult objects) = objects \<and>
   fst (showRequestResult_call toJSON requestResult
          (snd (showRequestResult_call toJSON requestResult objects))) =
     fst (showRequestResult_call toJSON requestResult objects)"
proof -
  have "snd (showRequestResult_call toJSON requestResult objects) = objects"
    using keeps_store_body [of toJSON requestResult]
    by (simp add: showRequestResult_call_def keeps_store_def split: prod.splits)
       (metis frame.select_convs(1) snd_conv)
  then show ?thesis by simp
qed

subsection \<open>The adapter\<close>

text \<open>
  C6, as amended: when rendering returns the string \<open>out\<close>, the observer does what one
  call of the logging function on \<open>out\<close> does, in the world the rendering left, and
  returns what that call returns (or throws what it throws).
\<close>

theorem logger_calls_sink_once:
  "showRequestResult toJSON r w = (Inr out, w1) \<Longrightarrow> logger toJSON sink r w = sink out w1"
  by (simp add: logger_def js_bind_def)

theorem logger_calls_sink_once_witness:
  "showRequestResult (external toJSON_model) example_get ([] :: string list) =
     (Inr example_get_out, []) \<and>
   logger (external toJSON_model) recording_sink example_get [] = (Inr (), [example_get_out])"
proof -
  have h: "showRequestResult (external toJSON_model) example_get [] =
      (Inr example_get_out, ([] :: string list))"
    by (rule example_get_renders)
  from logger_calls_sink_once [OF h, of recording_sink] h show ?thesis
    by (simp add: recording_sink_def)
qed

text \<open>
  C6 as stated fails: the value the logging function returns is not ignored. Two
  logging functions that differ in nothing but the value they return make the observer
  return different values.
\<close>

theorem logger_returns_sink_value:
  "fst (logger (external toJSON_model) (returning_sink (1 :: int)) example_get ()) \<noteq>
   fst (logger (external toJSON_model) (returning_sink (2 :: int)) example_get ())"
  by (simp add: logger_def js_bind_def example_get_renders returning_sink_def)

text \<open>
  C7: when rendering throws, the observer throws the same exception and leaves the world
  as the rendering left it, whatever the logging function is: the logging function is not
  called. In particular, when the serializer throws on a request content that is present,
  rendering throws that exception.
\<close>

theorem render_failure_skips_sink:
  "(showRequestResult toJSON r w = (Inl e, w') \<longrightarrow> logger toJSON sink r w = (Inl e, w')) \<and>
   (requestContent r = Some c \<and> c \<noteq> JNull \<and> toJSON c True w = (Inl e, w') \<longrightarrow>
      showRequestResult toJSON r w = (Inl e, w'))"
proof (intro conjI impI)
  assume "showRequestResult toJSON r w = (Inl e, w')"
  then show "logger toJSON sink r w = (Inl e, w')"
    by (simp add: logger_def js_bind_def)
next
  assume "requestContent r = Some c \<and> c \<noteq> JNull \<and> toJSON c True w = (Inl e, w')"
  then show "showRequestResult toJSON r w = (Inl e, w')"
    by (intro showRequestResult_Inl [THEN iffD2] disjI1) simp
qed

theorem render_failure_skips_sink_witness:
  "requestContent example_cyclic = Some (JObject [(''self'', JUnserializable)]) \<and>
   JObject [(''self'', JUnserializable)] \<noteq> JNull \<and>
   external toJSON_model (JObject [(''self'', JUnserializable)]) True ([] :: string list) =
     (Inl SerializationError, []) \<and>
   showRequestResult (external toJSON_model) example_cyclic ([] :: string list) =
     (Inl SerializationError, []) \<and>
   logger (external toJSON_model) recording_sink example_cyclic [] =
     (Inl SerializationError, [])"
proof -
  have a: "requestContent example_cyclic = Some (JObject [(''self'', JUnserializable)]) \<and>
      JObject [(''self'', JUnserializable)] \<noteq> JNull \<and>
      external toJSON_model (JObject [(''self'', JUnserializable)]) True ([] :: string list) =
        (Inl SerializationError, [])"
    by (simp add: example_cyclic_def external_def toJSON_model_def)
  from render_failure_skips_sink
    [of "external toJSON_model" example_cyclic "[] :: string list" SerializationError "[]"
      recording_sink
      "JObject [(''self'', JUnserializable)]"] a
  show ?thesis by simp
qed

subsection \<open>The lines of the output\<close>

lemma digits_of_digits: "c \<in> set (digits_of n) \<Longrightarrow> is_digit c"
proof (induction n arbitrary: c rule: digits_of.induct)
  case (1 n)
  show ?case
  proof (cases "n < 10")
    case True
    with "1.prems" show ?thesis
      by (subst (asm) digits_of.simps) (simp add: is_digit_def)
  next
    case False
    have "n mod 10 < 10" by simp
    then have "is_digit (char_of (48 + n mod 10))"
      by (simp add: is_digit_def)
    with False "1.prems" "1.IH" show ?thesis
      by (subst (asm) digits_of.simps) auto
  qed
qed

lemma digits_of_not_Nil: "digits_of n \<noteq> []"
  by (subst digits_of.simps) simp

lemma newline_not_digit: "\<not> is_digit CHR ''\<newline>''"
  by (simp add: is_digit_def)

lemma Number_toString_no_newline: "CHR ''\<newline>'' \<notin> set (Number_toString i)"
  using digits_of_digits newline_not_digit by (auto simp: Number_toString_def)

lemma hex_digit_no_newline: "n < 16 \<Longrightarrow> hex_digit n \<noteq> CHR ''\<newline>''"
proof
  assume n: "n < 16" and "hex_digit n = CHR ''\<newline>''"
  then have "(of_char (hex_digit n) :: nat) = 10" by simp
  with n show False
    by (simp add: hex_digit_def split: if_splits)
qed

lemma escape_char_no_newline: "CHR ''\<newline>'' \<notin> set (escape_char c)"
proof -
  have "(of_char c :: nat) < 32 \<Longrightarrow> (of_char c :: nat) div 16 < 16" by simp
  moreover have "(of_char c :: nat) mod 16 < 16" by simp
  ultimately show ?thesis
    using hex_digit_no_newline [of "of_char c div 16"] hex_digit_no_newline [of "of_char c mod 16"]
    unfolding escape_char_def by (simp del: of_char_mod_256) metis
qed

lemma quote_no_newline: "CHR ''\<newline>'' \<notin> set (quote s)"
  by (auto simp: quote_def escape_char_no_newline)

lemma after_newlines_free:
  "CHR ''\<newline>'' \<notin> set a \<Longrightarrow> after_newlines P (a @ b) = after_newlines P b"
  by (induction a) auto

lemma after_newlines_free': "CHR ''\<newline>'' \<notin> set a \<Longrightarrow> after_newlines P a"
  using after_newlines_free [of a P "[]"] by simp

lemma after_newlines_append:
  "(\<And>s t. P s \<Longrightarrow> P (s @ t)) \<Longrightarrow> after_newlines P a \<Longrightarrow> after_newlines P b \<Longrightarrow>
   after_newlines P (a @ b)"
  by (induction a) auto

lemma after_newlines_weaken:
  "(\<And>s. P s \<Longrightarrow> Q s) \<Longrightarrow> after_newlines P a \<Longrightarrow> after_newlines Q a"
  by (induction a) auto

lemma closes_or_nests_append: "closes_or_nests ind s \<Longrightarrow> closes_or_nests ind (s @ t)"
  by (auto simp: closes_or_nests_def prefix_def)

lemma closes_or_nests_deeper: "closes_or_nests (ind @ ''  '') s \<Longrightarrow> closes_or_nests ind s"
  by (auto simp: closes_or_nests_def prefix_def)

lemma closes_or_nests_gap: "closes_or_nests ind (ind @ ''  '' @ s)"
  by (simp add: closes_or_nests_def)

lemma after_newlines_nested_append:
  "after_newlines (closes_or_nests ind) a \<Longrightarrow> after_newlines (closes_or_nests ind) b \<Longrightarrow>
   after_newlines (closes_or_nests ind) (a @ b)"
  by (rule after_newlines_append) (simp_all add: closes_or_nests_append)

lemma after_newlines_join:
  assumes "\<forall>x \<in> set xs. after_newlines (closes_or_nests ind) x"
    and "CHR ''\<newline>'' \<notin> set ind"
  shows "after_newlines (closes_or_nests ind) (join_str ('',\<newline>'' @ ind @ ''  '') xs)"
  using assms(1)
proof (induction xs)
  case Nil
  show ?case by simp
next
  case (Cons x ys)
  show ?case
  proof (cases "ys = []")
    case True
    with Cons.prems show ?thesis by simp
  next
    case False
    let ?J = "join_str ('',\<newline>'' @ ind @ ''  '') ys"
    have J: "after_newlines (closes_or_nests ind) ?J" using Cons by simp
    have "after_newlines (closes_or_nests ind) ((ind @ ''  '') @ ?J)"
      using J assms(2) by (subst after_newlines_free) auto
    then have "after_newlines (closes_or_nests ind) ('',\<newline>'' @ ind @ ''  '' @ ?J)"
      using closes_or_nests_gap [of ind ?J] by simp
    moreover have "after_newlines (closes_or_nests ind) x" using Cons.prems by simp
    ultimately have
      "after_newlines (closes_or_nests ind) (x @ '',\<newline>'' @ ind @ ''  '' @ ?J)"
      by (rule after_newlines_nested_append [rotated])
    with False show ?thesis by (simp add: join_str_Cons)
  qed
qed

lemma after_newlines_block:
  assumes "\<forall>x \<in> set xs. after_newlines (closes_or_nests ind) x"
    and "CHR ''\<newline>'' \<notin> set ind" and "c = CHR '']'' \<or> c = CHR ''}''"
    and "b \<noteq> CHR ''\<newline>''"
  shows "after_newlines (closes_or_nests ind)
           (b # ''\<newline>'' @ ind @ ''  '' @ join_str ('',\<newline>'' @ ind @ ''  '') xs
              @ ''\<newline>'' @ ind @ [c])"
proof -
  let ?J = "join_str ('',\<newline>'' @ ind @ ''  '') xs"
  have "after_newlines (closes_or_nests ind) (ind @ [c])"
    using assms(2,3) by (intro after_newlines_free') auto
  then have close: "after_newlines (closes_or_nests ind) (''\<newline>'' @ ind @ [c])"
    using assms(3) by (auto simp: closes_or_nests_def)
  have "after_newlines (closes_or_nests ind) (?J @ ''\<newline>'' @ ind @ [c])"
    using after_newlines_join [OF assms(1,2)] close
    by (rule after_newlines_nested_append)
  then have "after_newlines (closes_or_nests ind) ((ind @ ''  '') @ ?J @ ''\<newline>'' @ ind @ [c])"
    using assms(2) by (subst after_newlines_free) auto
  then show ?thesis
    using closes_or_nests_gap [of ind "?J @ ''\<newline>'' @ ind @ [c]"] assms(4) by simp
qed

lemma serialize_after_newlines:
  "CHR ''\<newline>'' \<notin> set ind \<Longrightarrow> gap = ''  '' \<Longrightarrow>
   after_newlines (closes_or_nests ind) (serialize gap ind v)"
proof (induction gap ind v rule: serialize.induct)
  case (1 gap ind)
  show ?case by simp
next
  case (2 gap ind b)
  show ?case by simp
next
  case (3 gap ind n)
  show ?case by (simp add: after_newlines_free' Number_toString_no_newline)
next
  case (4 gap ind s)
  show ?case by (simp add: after_newlines_free' quote_no_newline)
next
  case (5 gap ind xs)
  show ?case
  proof (cases "xs = []")
    case True
    then show ?thesis by simp
  next
    case False
    have "\<forall>x \<in> set (map (serialize gap (ind @ gap)) xs). after_newlines (closes_or_nests ind) x"
    proof
      fix x assume "x \<in> set (map (serialize gap (ind @ gap)) xs)"
      then obtain v where v: "v \<in> set xs" "x = serialize gap (ind @ gap) v" by auto
      have "after_newlines (closes_or_nests (ind @ gap)) (serialize gap (ind @ gap) v)"
        using "5.IH"(2) [OF False _ v(1)] "5.prems" by simp
      then show "after_newlines (closes_or_nests ind) x"
        unfolding v(2) using "5.prems"(2) closes_or_nests_deeper after_newlines_weaken by blast
    qed
    from after_newlines_block [OF this "5.prems"(1), of "CHR '']''" "CHR ''[''"] False "5.prems"(2)
    show ?thesis by simp
  qed
next
  case (6 gap ind ps)
  show ?case
  proof (cases "ps = []")
    case True
    then show ?thesis by simp
  next
    case False
    have "\<forall>x \<in> set (map (\<lambda>(k, v). quote k @ '': '' @ serialize gap (ind @ gap) v) ps).
            after_newlines (closes_or_nests ind) x"
    proof
      fix x assume "x \<in> set (map (\<lambda>(k, v). quote k @ '': '' @ serialize gap (ind @ gap) v) ps)"
      then obtain k v where v: "(k, v) \<in> set ps" "x = quote k @ '': '' @ serialize gap (ind @ gap) v"
        by auto
      have "after_newlines (closes_or_nests (ind @ gap)) (serialize gap (ind @ gap) v)"
        using "6.IH"(2) [OF False _ v(1) refl] "6.prems" by simp
      then have "after_newlines (closes_or_nests ind) (serialize gap (ind @ gap) v)"
        using "6.prems"(2) closes_or_nests_deeper after_newlines_weaken by blast
      then have "after_newlines (closes_or_nests ind) ((quote k @ '': '') @ serialize gap (ind @ gap) v)"
        by (subst after_newlines_free) (auto simp: quote_no_newline)
      then show "after_newlines (closes_or_nests ind) x"
        unfolding v(2) by simp
    qed
    from after_newlines_block [OF this "6.prems"(1), of "CHR ''}''" "CHR ''{''"] False "6.prems"(2)
    show ?thesis by simp
  qed
next
  case (7 gap ind)
  show ?case by simp
qed

lemma split_str_hd_free:
  "CHR ''\<newline>'' \<notin> set a \<Longrightarrow>
   split_str CHR ''\<newline>'' (a @ s) =
     (a @ hd (split_str CHR ''\<newline>'' s)) # tl (split_str CHR ''\<newline>'' s)"
  by (induction a) (auto split: list.splits)

lemma first_line_nested:
  "closes_or_nests [] s \<Longrightarrow> \<not> prefix ''Request JSON:'' (hd (split_str CHR ''\<newline>'' s))"
  by (cases s) (auto simp: closes_or_nests_def split: list.splits)

lemma rest_lines_nested:
  "after_newlines (closes_or_nests []) s \<Longrightarrow>
   \<forall>l \<in> set (tl (split_str CHR ''\<newline>'' s)). \<not> prefix ''Request JSON:'' l"
proof (induction s)
  case Nil
  show ?case by simp
next
  case (Cons c s)
  show ?case
  proof (cases "c = CHR ''\<newline>''")
    case True
    with Cons.prems have "closes_or_nests [] s" by simp
    from first_line_nested [OF this] Cons True show ?thesis
      by (cases "split_str CHR ''\<newline>'' s") auto
  next
    case False
    with Cons show ?thesis by (auto split: list.splits)
  qed
qed

lemma block_lines:
  assumes "CHR ''\<newline>'' \<notin> set label"
  shows "filter (prefix ''  Request JSON:'')
           (split_str CHR ''\<newline>'' (label @ indent (serialize ''  '' [] v))) =
         filter (prefix ''  Request JSON:'')
           [label @ hd (split_str CHR ''\<newline>'' (serialize ''  '' [] v))]"
proof -
  let ?ls = "split_str CHR ''\<newline>'' (serialize ''  '' [] v)"
  have "\<forall>l \<in> set (tl ?ls). \<not> prefix ''Request JSON:'' l"
    by (rule rest_lines_nested) (simp add: serialize_after_newlines)
  then have "filter (prefix ''  Request JSON:'') (map (\<lambda>l. ''  '' @ l) (tl ?ls)) = []"
    by (auto simp: filter_empty_conv)
  then show ?thesis
    using assms by (simp add: split_str_hd_free lines_indent)
qed

lemma request_json_lines_append:
  "request_json_lines (a @ CHR ''\<newline>'' # b) = request_json_lines a @ request_json_lines b"
  by (simp add: request_json_lines_def split_str_append)

lemma request_json_lines_single:
  "CHR ''\<newline>'' \<notin> set a \<Longrightarrow> \<not> prefix ''  Request JSON:'' a \<Longrightarrow> request_json_lines a = []"
  by (simp add: request_json_lines_def split_str_no_sep)

lemma request_json_lines_block:
  "CHR ''\<newline>'' \<notin> set label \<Longrightarrow>
   request_json_lines (label @ indent (serialize ''  '' [] v)) =
     filter (prefix ''  Request JSON:'')
       [label @ hd (split_str CHR ''\<newline>'' (serialize ''  '' [] v))]"
  unfolding request_json_lines_def by (rule block_lines)

lemma request_json_lines_layout:
  assumes "CHR ''\<newline>'' \<notin> set hl" "\<not> prefix ''  Request JSON:'' hl"
    and "CHR ''\<newline>'' \<notin> set sl" "\<not> prefix ''  Request JSON:'' sl"
  shows "request_json_lines (hl @ ''\<newline>'' @ rh @ ''\<newline>'' @ rj @ ''\<newline>'' @ sl @ ''\<newline>'') =
           request_json_lines rh @ request_json_lines rj"
    and "request_json_lines
           (hl @ ''\<newline>'' @ rq @ ''\<newline>'' @ rh @ ''\<newline>'' @ rj @ ''\<newline>'' @ sl @ ''\<newline>'') =
           request_json_lines rq @ request_json_lines rh @ request_json_lines rj"
proof -
  have e: "request_json_lines [] = []"
    by (simp add: request_json_lines_def)
  have hl0: "request_json_lines hl = []"
    using assms(1,2) by (rule request_json_lines_single)
  have sl0: "request_json_lines sl = []"
    using assms(3,4) by (rule request_json_lines_single)
  show "request_json_lines (hl @ ''\<newline>'' @ rh @ ''\<newline>'' @ rj @ ''\<newline>'' @ sl @ ''\<newline>'') =
           request_json_lines rh @ request_json_lines rj"
    by (simp add: request_json_lines_append hl0 sl0 e)
  show "request_json_lines
           (hl @ ''\<newline>'' @ rq @ ''\<newline>'' @ rh @ ''\<newline>'' @ rj @ ''\<newline>'' @ sl @ ''\<newline>'') =
           request_json_lines rq @ request_json_lines rh @ request_json_lines rj"
    by (simp add: request_json_lines_append hl0 sl0 e)
qed

lemma lookup_no_newline:
  "\<forall>(k, v) \<in> set q. CHR ''\<newline>'' \<notin> set k \<and> CHR ''\<newline>'' \<notin> set v \<Longrightarrow>
   CHR ''\<newline>'' \<notin> set (lookup q key)"
  by (auto simp: lookup_def split: option.splits dest!: map_of_SomeD)

lemma join_str_no_newline:
  "\<forall>x \<in> set xs. c \<notin> set x \<Longrightarrow> c \<notin> set sep \<Longrightarrow> c \<notin> set (join_str sep xs)"
  by (induction sep xs rule: join_str.induct) auto

lemma queryString_no_newline:
  "single_line_header r \<Longrightarrow> CHR ''\<newline>'' \<notin> set (queryString (query r))"
proof (cases "query r")
  case None
  then show ?thesis by (simp add: queryString_def)
next
  case (Some q)
  assume "single_line_header r"
  with Some have q: "\<forall>(k, v) \<in> set q. CHR ''\<newline>'' \<notin> set k \<and> CHR ''\<newline>'' \<notin> set v"
    by (simp add: single_line_header_def)
  have "CHR ''\<newline>'' \<notin> set (join_str ''&'' (map (\<lambda>key. key @ ''='' @ lookup q key) (Object_keys q)))"
    using q lookup_no_newline [OF q] by (intro join_str_no_newline) (auto simp: Object_keys_def)
  with Some show ?thesis by (simp add: queryString_def Let_def)
qed

lemma toJSON_model_Inr:
  "external toJSON_model v True w = (Inr s, w') \<longleftrightarrow>
     serializable v \<and> s = serialize ''  '' [] v \<and> w' = w"
  by (auto simp: external_def toJSON_model_def)

lemma example_injected_renders:
  "showRequestResult (external toJSON_model) example_injected (w :: 'w :: equal) =
     (Inr example_injected_out, w)"
  by code_simp

lemma example_put_renders:
  "showRequestResult (external toJSON_model) example_put (w :: 'w :: equal) =
     (Inr example_put_out, w)"
  by code_simp


text \<open>
  C3, as amended: for a record whose method, path and query keys and values contain no
  newline, rendered with the serializer modelled above: when the request content is
  absent, no line of the output begins with \<open>'  Request JSON:'\<close>; when it is present,
  the header line is followed by \<open>'  Request JSON: '\<close>, the indented pretty-printed
  request content and a newline, and exactly one line of the output begins with
  \<open>'  Request JSON:'\<close>, the first line of that block.
\<close>

theorem request_content_line:
  assumes "showRequestResult (external toJSON_model) r w = (Inr out, w')"
    and "single_line_header r"
  shows "if present (requestContent r)
         then \<exists>c rest. requestContent r = Some c \<and>
                out = header_line r @ ''  Request JSON: '' @ indent (serialize ''  '' [] c)
                        @ ''\<newline>'' @ rest \<and>
                request_json_lines out =
                  [''  Request JSON: '' @ hd (split_str CHR ''\<newline>'' (serialize ''  '' [] c))]
         else request_json_lines out = []"
proof -
  let ?hl = "''Fauna '' @ method' r @ '' /'' @ path r @ queryString (query r)"
  let ?sl = "''  Response ('' @ Number_toString (statusCode r) @ ''): Network latency ''
       @ Number_toString (timeTaken r) @ ''ms''"
  let ?rh = "''  Response headers: '' @ indent (serialize ''  '' [] (responseHeaders r))"
  let ?rj = "''  Response JSON: '' @ indent (serialize ''  '' [] (responseContent r))"
  have hl: "CHR ''\<newline>'' \<notin> set ?hl" "\<not> prefix ''  Request JSON:'' ?hl"
    using assms(2) queryString_no_newline [OF assms(2)] by (simp_all add: single_line_header_def)
  have sl: "CHR ''\<newline>'' \<notin> set ?sl" "\<not> prefix ''  Request JSON:'' ?sl"
    by (simp_all add: Number_toString_no_newline)
  have rh: "request_json_lines ?rh = []"
    by (subst request_json_lines_block) simp_all
  have rj: "request_json_lines ?rj = []"
    by (subst request_json_lines_block) simp_all
  from assms(1) obtain req where
    out: "out = header_line r @ req @ ?rh @ ''\<newline>'' @ ?rj @ ''\<newline>'' @ status_line r"
    and req: "if present (requestContent r)
         then \<exists>c. requestContent r = Some c \<and>
                req = ''  Request JSON: '' @ indent (serialize ''  '' [] c) @ ''\<newline>''
         else req = []"
    unfolding showRequestResult_Inr toJSON_model_Inr
    by (cases "present (requestContent r)") auto
  show ?thesis
  proof (cases "present (requestContent r)")
    case False
    with req have "out = ?hl @ ''\<newline>'' @ ?rh @ ''\<newline>'' @ ?rj @ ''\<newline>'' @ ?sl @ ''\<newline>''"
      unfolding out header_line_def status_line_def by simp
    then have "request_json_lines out = []"
      using request_json_lines_layout(1) [OF hl sl, of ?rh ?rj] rh rj by simp
    with False show ?thesis by simp
  next
    case True
    with req obtain c where c: "requestContent r = Some c"
      and r: "req = ''  Request JSON: '' @ indent (serialize ''  '' [] c) @ ''\<newline>''"
      by auto
    let ?rq = "''  Request JSON: '' @ indent (serialize ''  '' [] c)"
    have rq: "request_json_lines ?rq =
        [''  Request JSON: '' @ hd (split_str CHR ''\<newline>'' (serialize ''  '' [] c))]"
      by (subst request_json_lines_block) simp_all
    have "out = ?hl @ ''\<newline>'' @ ?rq @ ''\<newline>'' @ ?rh @ ''\<newline>'' @ ?rj @ ''\<newline>'' @ ?sl @ ''\<newline>''"
      unfolding out r header_line_def status_line_def by simp
    then have "request_json_lines out =
        [''  Request JSON: '' @ hd (split_str CHR ''\<newline>'' (serialize ''  '' [] c))]"
      using request_json_lines_layout(2) [OF hl sl, of ?rq ?rh ?rj] rh rj rq by simp
    moreover have "out = header_line r @ ''  Request JSON: '' @ indent (serialize ''  '' [] c)
                        @ ''\<newline>'' @ (?rh @ ''\<newline>'' @ ?rj @ ''\<newline>'' @ status_line r)"
      unfolding out r by simp
    ultimately show ?thesis using True c by auto
  qed
qed

theorem request_content_line_witness:
  "showRequestResult (external toJSON_model) example_put () = (Inr example_put_out, ()) \<and>
   single_line_header example_put \<and>
   present (requestContent example_put) \<and>
   request_json_lines example_put_out = [''  Request JSON: ['']"
proof -
  have h1: "showRequestResult (external toJSON_model) example_put () = (Inr example_put_out, ())"
    by (rule example_put_renders)
  have h2: "single_line_header example_put"
    by (simp add: single_line_header_def example_put_def)
  have h3: "present (requestContent example_put)"
    by (simp add: present_def example_put_def)
  have h4: "hd (split_str CHR ''\<newline>'' (serialize ''  '' [] (JArray [JNumber 1, JBool True]))) = ''[''"
    by code_simp
  from request_content_line [OF h1 h2] h3 h4
  have "request_json_lines example_put_out = [''  Request JSON: ['']"
    by (auto simp: example_put_def)
  with h1 h2 h3 show ?thesis by simp
qed

text \<open>
  C3 as stated fails: the path is put into the header line as it is, so a path with a
  newline in it followed by \<open>'  Request JSON:'\<close> gives an output with such a line while
  the request content is absent.
\<close>

theorem request_content_line_injected:
  "requestContent example_injected = None \<and>
   showRequestResult (external toJSON_model) example_injected () =
     (Inr example_injected_out, ()) \<and>
   request_json_lines example_injected_out = [''  Request JSON: y'']"
proof -
  have "request_json_lines example_injected_out = [''  Request JSON: y'']"
    by code_simp
  then show ?thesis
    by (simp add: example_injected_renders) (simp add: example_injected_def)
qed

subsection \<open>Parsing back what the serializer writes\<close>

lemma is_digit_char_of: "d < 10 \<Longrightarrow> is_digit (char_of (48 + d :: nat))"
  by (simp add: is_digit_def)

lemma digit_value: "d < 10 \<Longrightarrow> (of_char (char_of (48 + d :: nat)) :: nat) - 48 = d"
  by simp

lemma nat_of_digits_snoc:
  "nat_of_digits (ds @ [c]) = 10 * nat_of_digits ds + (of_char c - 48)"
  by (simp add: nat_of_digits_def)

lemma nat_of_digits_of: "nat_of_digits (digits_of n) = n"
proof (induction n rule: digits_of.induct)
  case (1 n)
  show ?case
  proof (cases "n < 10")
    case True
    then show ?thesis
      by (subst digits_of.simps) (simp add: nat_of_digits_def)
  next
    case False
    have "n mod 10 < 10" by simp
    then have "(of_char (char_of (48 + n mod 10 :: nat)) :: nat) - 48 = n mod 10"
      by (rule digit_value)
    with False "1.IH" show ?thesis
      by (subst digits_of.simps) (simp add: nat_of_digits_snoc)
  qed
qed

lemma hd_digits_of: "0 < n \<Longrightarrow> hd (digits_of n) \<noteq> CHR ''0''"
proof (induction n rule: digits_of.induct)
  case (1 n)
  show ?case
  proof (cases "n < 10")
    case True
    have "char_of (48 + n) \<noteq> CHR ''0''"
    proof
      assume "char_of (48 + n) = CHR ''0''"
      then have "(of_char (char_of (48 + n)) :: nat) = of_char CHR ''0''" by simp
      with True "1.prems" show False by simp
    qed
    with True show ?thesis by (subst digits_of.simps) simp
  next
    case False
    then have "0 < n div 10" by simp
    with False "1.IH" have "hd (digits_of (n div 10)) \<noteq> CHR ''0''" by simp
    with False show ?thesis
      by (subst digits_of.simps) (simp add: digits_of_not_Nil)
  qed
qed

lemma length_digits_of: "1 < length (digits_of n) \<Longrightarrow> 0 < n"
  by (cases "n = 0") (simp_all add: digits_of.simps)

lemma takeWhile_digits:
  "\<forall>c \<in> set ds. is_digit c \<Longrightarrow> rest = [] \<or> \<not> is_digit (hd rest) \<Longrightarrow>
   takeWhile is_digit (ds @ rest) = ds \<and> dropWhile is_digit (ds @ rest) = rest"
  by (cases rest) (simp_all add: takeWhile_append2 dropWhile_append2)

lemma minus_not_digit: "\<not> is_digit CHR ''-''"
  by (simp add: is_digit_def)

lemma parse_digits:
  assumes "number_end rest"
  shows "takeWhile is_digit (digits_of n @ rest) = digits_of n"
    and "dropWhile is_digit (digits_of n @ rest) = rest"
  using takeWhile_digits [of "digits_of n" rest] assms digits_of_digits
  by (auto simp: number_end_def)

lemma hd_digits_is_digit: "is_digit (hd (digits_of n))"
  using digits_of_digits [of "hd (digits_of n)" n] digits_of_not_Nil [of n] by simp

lemma parse_number_toString:
  assumes "number_end rest"
  shows "parse_number (Number_toString i @ rest) = Some (JNumber i, rest)"
proof (cases "i < 0")
  case True
  let ?n = "nat (- i)"
  have s: "Number_toString i @ rest = CHR ''-'' # digits_of ?n @ rest"
    using True by (simp add: Number_toString_def)
  have z: "\<not> (1 < length (digits_of ?n) \<and> hd (digits_of ?n) = CHR ''0'')"
    using hd_digits_of [of ?n] length_digits_of [of ?n] by auto
  have e: "\<not> (rest \<noteq> [] \<and> hd rest \<in> {CHR ''.'', CHR ''e'', CHR ''E''})"
    using assms by (auto simp: number_end_def)
  show ?thesis
    unfolding s parse_number_def Let_def
    using True z e by (simp add: parse_digits [OF assms] digits_of_not_Nil nat_of_digits_of)
next
  case False
  let ?n = "nat i"
  have s: "Number_toString i @ rest = digits_of ?n @ rest"
    using False by (simp add: Number_toString_def)
  have h: "hd (digits_of ?n @ rest) \<noteq> CHR ''-''"
    using hd_digits_is_digit [of ?n] minus_not_digit digits_of_not_Nil [of ?n] by auto
  have z: "\<not> (1 < length (digits_of ?n) \<and> hd (digits_of ?n) = CHR ''0'')"
    using hd_digits_of [of ?n] length_digits_of [of ?n] by auto
  have e: "\<not> (rest \<noteq> [] \<and> hd rest \<in> {CHR ''.'', CHR ''e'', CHR ''E''})"
    using assms by (auto simp: number_end_def)
  show ?thesis
    unfolding s parse_number_def Let_def
    using False z e h by (simp add: parse_digits [OF assms] digits_of_not_Nil nat_of_digits_of)
qed

lemma hex_value_hex_digit: "d < 16 \<Longrightarrow> hex_value (hex_digit d) = Some d"
  by (auto simp: hex_value_def hex_digit_def is_digit_def)

lemma unicode_escape_control:
  assumes "(of_char c :: nat) < 32"
  shows "unicode_escape [CHR ''0'', CHR ''0'', hex_digit (of_char c div 16), hex_digit (of_char c mod 16)]
           = Some c"
proof -
  let ?n = "of_char c :: nat"
  have a: "hex_value (hex_digit (?n div 16)) = Some (?n div 16)"
    using assms by (intro hex_value_hex_digit) simp
  have b: "hex_value (hex_digit (?n mod 16)) = Some (?n mod 16)"
    by (intro hex_value_hex_digit) simp
  have z: "hex_value CHR ''0'' = Some 0"
    by (simp add: hex_value_def is_digit_def)
  have "16 * (?n div 16) + ?n mod 16 = ?n" by simp
  moreover have "char_of ?n = c" by simp
  ultimately show ?thesis
    using assms by (simp add: unicode_escape_def a b z Let_def del: of_char_mod_256)
qed

lemma and_then_Some: "and_then (Some c) r = map_option (\<lambda>(str, rest). (c # str, rest)) r"
  by (cases r) (auto simp: and_then_def)

lemma parse_chars_escape:
  "parse_chars (escape_char c @ s) = and_then (Some c) (parse_chars s)"
proof -
  consider (quote) "c = CHR 0x22" | (backslash) "c = CHR 0x5C"
    | (b) "c = CHR 0x08" | (f) "c = CHR 0x0C" | (n) "c = CHR 0x0A" | (r) "c = CHR 0x0D"
    | (t) "c = CHR 0x09"
    | (control) "c \<notin> {CHR 0x22, CHR 0x5C, CHR 0x08, CHR 0x0C, CHR 0x0A, CHR 0x0D, CHR 0x09}"
        "(of_char c :: nat) < 32"
    | (plain) "c \<notin> {CHR 0x22, CHR 0x5C, CHR 0x08, CHR 0x0C, CHR 0x0A, CHR 0x0D, CHR 0x09}"
        "\<not> (of_char c :: nat) < 32"
    by blast
  then show ?thesis
  proof cases
    case control
    then show ?thesis
      using unicode_escape_control [OF control(2)]
      by (simp add: escape_char_def del: of_char_mod_256)
  next
    case plain
    then show ?thesis by (simp add: escape_char_def)
  qed (simp_all add: escape_char_def simple_escape_def)
qed

lemma parse_chars_escaped:
  "parse_chars (concat (map escape_char str) @ CHR 0x22 # rest) = Some (str, rest)"
  by (induction str) (simp_all add: parse_chars_escape and_then_Some)

lemma parse_chars_quote:
  "\<exists>body. quote str @ rest = CHR 0x22 # body \<and> parse_chars body = Some (str, rest)"
  using parse_chars_escaped [of str rest] by (simp add: quote_def)

lemma skip_ws_Cons: "\<not> is_ws c \<Longrightarrow> skip_ws (c # t) = c # t"
  by (simp add: skip_ws_def)

lemma skip_ws_append: "ws_only ws \<Longrightarrow> skip_ws (ws @ s) = skip_ws s"
  by (induction ws) (auto simp: skip_ws_def ws_only_def)

lemma value_start_not_ws: "value_start c \<Longrightarrow> \<not> is_ws c"
  by (auto simp: value_start_def is_ws_def is_digit_def)

lemma value_start_not_close: "value_start c \<Longrightarrow> c \<noteq> CHR '']'' \<and> c \<noteq> CHR ''}''"
  by (auto simp: value_start_def is_digit_def)

lemma join_str_hd: "xs \<noteq> [] \<Longrightarrow> hd xs \<noteq> [] \<Longrightarrow> join_str sep xs \<noteq> [] \<and> hd (join_str sep xs) = hd (hd xs)"
  by (induction sep xs rule: join_str.induct) auto

lemma serialize_start:
  "serializable v \<Longrightarrow> serialize ''  '' ind v \<noteq> [] \<and> value_start (hd (serialize ''  '' ind v))"
proof (cases v)
  case (JNumber i)
  show ?thesis
  proof (cases "i < 0")
    case True
    with JNumber show ?thesis by (simp add: Number_toString_def value_start_def)
  next
    case False
    with JNumber show ?thesis
      using hd_digits_is_digit [of "nat i"]
      by (simp add: Number_toString_def value_start_def digits_of_not_Nil)
  qed
qed (auto simp: value_start_def quote_def)

lemma parse_value_scalar:
  assumes "skip_ws s = c # t" "c \<noteq> CHR ''{''" "c \<noteq> CHR ''[''" "c \<noteq> CHR 0x22"
  shows "parse_value (Suc n) s =
     (if take 4 (c # t) = ''true'' then Some (JBool True, drop 4 (c # t))
      else if take 5 (c # t) = ''false'' then Some (JBool False, drop 5 (c # t))
      else if take 4 (c # t) = ''null'' then Some (JNull, drop 4 (c # t))
      else parse_number (c # t))"
  using assms by (simp add: parse_value.simps)

lemma parse_value_string:
  "skip_ws s = CHR 0x22 # t \<Longrightarrow>
   parse_value (Suc n) s = map_option (\<lambda>(str, r). (JString str, r)) (parse_chars t)"
  by (simp add: parse_value.simps)

lemma parse_value_array:
  "skip_ws s = CHR ''['' # t \<Longrightarrow>
   parse_value (Suc n) s =
     (if take 1 (skip_ws t) = '']'' then Some (JArray [], drop 1 (skip_ws t))
      else map_option (\<lambda>(vs, r). (JArray vs, r)) (parse_elements n t))"
  by (simp add: parse_value.simps)

lemma parse_value_object:
  "skip_ws s = CHR ''{'' # t \<Longrightarrow>
   parse_value (Suc n) s =
     (if take 1 (skip_ws t) = ''}'' then Some (JObject [], drop 1 (skip_ws t))
      else map_option (\<lambda>(ps, r). (JObject ps, r)) (parse_members n t))"
  by (simp add: parse_value.simps)

lemma parse_elements_step:
  "parse_value n s = Some (v, r) \<Longrightarrow> skip_ws r = c # t \<Longrightarrow>
   parse_elements (Suc n) s =
     (if c = CHR '','' then map_option (\<lambda>(vs, r'). (v # vs, r')) (parse_elements n t)
      else if c = CHR '']'' then Some ([v], t) else None)"
  by (simp add: parse_elements.simps)

lemma parse_members_step:
  "skip_ws s = CHR 0x22 # b \<Longrightarrow> parse_chars b = Some (k, r) \<Longrightarrow>
   skip_ws r = CHR '':'' # r1 \<Longrightarrow> parse_value n r1 = Some (v, r2) \<Longrightarrow>
   skip_ws r2 = c # t \<Longrightarrow>
   parse_members (Suc n) s =
     (if c = CHR '','' then map_option (\<lambda>(ps, r''). ((k, v) # ps, r'')) (parse_members n t)
      else if c = CHR ''}'' then Some ([(k, v)], t) else None)"
  by (simp add: parse_members.simps)

lemma number_end_sep: "number_end (CHR '','' # t)"
  by (simp add: number_end_def is_digit_def)

lemma number_end_close:
  assumes "ws_only w" "c = CHR '']'' \<or> c = CHR ''}''"
  shows "number_end (w @ c # t)"
proof (cases w)
  case Nil
  with assms(2) show ?thesis by (auto simp: number_end_def is_digit_def)
next
  case (Cons a w')
  with assms(1) have "is_ws a" by (simp add: ws_only_def)
  then have "\<not> is_digit a \<and> a \<notin> {CHR ''.'', CHR ''e'', CHR ''E''}"
    by (auto simp: is_ws_def is_digit_def)
  with Cons show ?thesis by (simp add: number_end_def)
qed

lemma skip_ws_close:
  assumes "ws_only w" "c = CHR '']'' \<or> c = CHR ''}''"
  shows "skip_ws (w @ c # t) = c # t"
proof -
  have "\<not> is_ws c" using assms(2) by (auto simp: is_ws_def)
  then show ?thesis
    using assms(1) by (simp add: skip_ws_append skip_ws_Cons)
qed

text \<open>A list of elements, given that each element parses back.\<close>

lemma parse_elements_join:
  assumes each: "\<And>x n ws rest. x \<in> set xs \<Longrightarrow> ws_only ws \<Longrightarrow> fuel_of x \<le> n \<Longrightarrow>
      number_end rest \<Longrightarrow> parse_value n (ws @ item x @ rest) = Some (x, rest)"
    and "xs \<noteq> []" "ws_only ws" "ws_only w" "ws_only w2"
    and "sum_list (map (\<lambda>x. Suc (fuel_of x)) xs) \<le> m"
  shows "parse_elements m (ws @ join_str (CHR '','' # w) (map item xs) @ w2 @ CHR '']'' # rest)
           = Some (xs, rest)"
  using assms
proof (induction xs arbitrary: ws m)
  case Nil
  then show ?case by simp
next
  case (Cons x ys)
  from Cons.prems(6) obtain m' where m: "m = Suc m'" "fuel_of x \<le> m'"
    "sum_list (map (\<lambda>x. Suc (fuel_of x)) ys) \<le> m'"
    by (cases m) auto
  have x: "x \<in> set (x # ys)" by simp
  show ?case
  proof (cases "ys = []")
    case True
    have "number_end (w2 @ CHR '']'' # rest)"
      using Cons.prems(5) by (simp add: number_end_close)
    then have v: "parse_value m' (ws @ item x @ (w2 @ CHR '']'' # rest)) =
        Some (x, w2 @ CHR '']'' # rest)"
      by (rule Cons.prems(1) [OF x Cons.prems(3) m(2)])
    have s: "skip_ws (w2 @ CHR '']'' # rest) = CHR '']'' # rest"
      using Cons.prems(5) by (simp add: skip_ws_close)
    have "parse_elements (Suc m') (ws @ item x @ (w2 @ CHR '']'' # rest)) = Some ([x], rest)"
      unfolding parse_elements_step [OF v s] by simp
    with True show ?thesis unfolding m(1) by simp
  next
    case False
    let ?t = "w @ join_str (CHR '','' # w) (map item ys) @ w2 @ CHR '']'' # rest"
    have v: "parse_value m' (ws @ item x @ (CHR '','' # ?t)) = Some (x, CHR '','' # ?t)"
      by (rule Cons.prems(1) [OF x Cons.prems(3) m(2) number_end_sep])
    have s: "skip_ws (CHR '','' # ?t) = CHR '','' # ?t"
      by (simp add: skip_ws_Cons is_ws_def)
    have ih: "parse_elements m' ?t = Some (ys, rest)"
    proof (rule Cons.IH [OF _ False Cons.prems(4) Cons.prems(4) Cons.prems(5) m(3)])
      fix y n ws' rest'
      assume "y \<in> set ys" and p: "ws_only ws'" "fuel_of y \<le> n" "number_end rest'"
      then have "y \<in> set (x # ys)" by simp
      then show "parse_value n (ws' @ item y @ rest') = Some (y, rest')"
        using p by (rule Cons.prems(1))
    qed
    have "parse_elements (Suc m') (ws @ item x @ (CHR '','' # ?t)) = Some (x # ys, rest)"
      unfolding parse_elements_step [OF v s] ih by simp
    moreover have "join_str (CHR '','' # w) (map item (x # ys)) @ w2 @ CHR '']'' # rest =
        item x @ (CHR '','' # ?t)"
      using False by (simp add: join_str_Cons)
    ultimately show ?thesis unfolding m(1) by simp
  qed
qed

lemma parse_member:
  assumes v: "parse_value n ('' '' @ item @ r2) = Some (v, r2)"
    and ws: "ws_only ws" and s: "skip_ws r2 = c # t"
  shows "parse_members (Suc n) (ws @ quote k @ '': '' @ item @ r2) =
     (if c = CHR '','' then map_option (\<lambda>(ps, r''). ((k, v) # ps, r'')) (parse_members n t)
      else if c = CHR ''}'' then Some ([(k, v)], t) else None)"
proof -
  obtain body where b: "quote k @ ('': '' @ item @ r2) = CHR 0x22 # body"
    and p: "parse_chars body = Some (k, '': '' @ item @ r2)"
    using parse_chars_quote [of k "'': '' @ item @ r2"] by blast
  have 1: "skip_ws (ws @ quote k @ '': '' @ item @ r2) = CHR 0x22 # body"
    using ws b by (simp add: skip_ws_append skip_ws_Cons is_ws_def)
  have 2: "skip_ws ('': '' @ item @ r2) = CHR '':'' # ('' '' @ item @ r2)"
    by (simp add: skip_ws_Cons is_ws_def)
  show ?thesis
    by (rule parse_members_step [OF 1 p 2 v s])
qed

lemma parse_members_join:
  assumes each: "\<And>p n ws rest. p \<in> set ps \<Longrightarrow> ws_only ws \<Longrightarrow> fuel_of (snd p) \<le> n \<Longrightarrow>
      number_end rest \<Longrightarrow> parse_value n (ws @ item (snd p) @ rest) = Some (snd p, rest)"
    and "ps \<noteq> []" "ws_only ws" "ws_only w" "ws_only w2"
    and "sum_list (map (\<lambda>p. Suc (fuel_of (snd p))) ps) \<le> m"
  shows "parse_members m
           (ws @ join_str (CHR '','' # w) (map (\<lambda>(k, v). quote k @ '': '' @ item v) ps)
              @ w2 @ CHR ''}'' # rest)
           = Some (ps, rest)"
  using assms
proof (induction ps arbitrary: ws m)
  case Nil
  then show ?case by simp
next
  case (Cons p qs)
  obtain k x where p: "p = (k, x)" by (cases p)
  from Cons.prems(6) obtain m' where m: "m = Suc m'" "fuel_of (snd p) \<le> m'"
    "sum_list (map (\<lambda>p. Suc (fuel_of (snd p))) qs) \<le> m'"
    by (cases m) auto
  have mem: "p \<in> set (p # qs)" by simp
  have sp: "ws_only '' ''" by (simp add: ws_only_def is_ws_def)
  show ?case
  proof (cases "qs = []")
    case True
    have "number_end (w2 @ CHR ''}'' # rest)"
      using Cons.prems(5) by (simp add: number_end_close)
    then have "parse_value m' ('' '' @ item (snd p) @ (w2 @ CHR ''}'' # rest)) =
        Some (snd p, w2 @ CHR ''}'' # rest)"
      by (rule Cons.prems(1) [OF mem sp m(2)])
    then have v: "parse_value m' ('' '' @ item x @ (w2 @ CHR ''}'' # rest)) =
        Some (x, w2 @ CHR ''}'' # rest)"
      by (simp add: p)
    have s: "skip_ws (w2 @ CHR ''}'' # rest) = CHR ''}'' # rest"
      using Cons.prems(5) by (simp add: skip_ws_close)
    have "parse_members (Suc m') (ws @ quote k @ '': '' @ item x @ (w2 @ CHR ''}'' # rest)) =
        Some ([(k, x)], rest)"
      unfolding parse_member [OF v Cons.prems(3) s] by simp
    with True show ?thesis unfolding m(1) p by simp
  next
    case False
    let ?t = "w @ join_str (CHR '','' # w) (map (\<lambda>(k, v). quote k @ '': '' @ item v) qs)
                @ w2 @ CHR ''}'' # rest"
    have "parse_value m' ('' '' @ item (snd p) @ (CHR '','' # ?t)) = Some (snd p, CHR '','' # ?t)"
      by (rule Cons.prems(1) [OF mem sp m(2) number_end_sep])
    then have v: "parse_value m' ('' '' @ item x @ (CHR '','' # ?t)) = Some (x, CHR '','' # ?t)"
      by (simp add: p)
    have s: "skip_ws (CHR '','' # ?t) = CHR '','' # ?t"
      by (simp add: skip_ws_Cons is_ws_def)
    have ih: "parse_members m' ?t = Some (qs, rest)"
    proof (rule Cons.IH [OF _ False Cons.prems(4) Cons.prems(4) Cons.prems(5) m(3)])
      fix q n ws' rest'
      assume "q \<in> set qs" and a: "ws_only ws'" "fuel_of (snd q) \<le> n" "number_end rest'"
      then have "q \<in> set (p # qs)" by simp
      then show "parse_value n (ws' @ item (snd q) @ rest') = Some (snd q, rest')"
        using a by (rule Cons.prems(1))
    qed
    have "parse_members (Suc m') (ws @ quote k @ '': '' @ item x @ (CHR '','' # ?t)) =
        Some ((k, x) # qs, rest)"
      unfolding parse_member [OF v Cons.prems(3) s] ih by simp
    moreover have
      "join_str (CHR '','' # w) (map (\<lambda>(k, v). quote k @ '': '' @ item v) (p # qs))
         @ w2 @ CHR ''}'' # rest = quote k @ '': '' @ item x @ (CHR '','' # ?t)"
      using False by (simp add: join_str_Cons p)
    ultimately show ?thesis unfolding m(1) p by simp
  qed
qed

lemma skip_ws_value:
  assumes "ws_only ws" "value_start c"
  shows "skip_ws (ws @ c # t) = c # t"
  using assms by (simp add: skip_ws_append skip_ws_Cons value_start_not_ws)

lemma parse_value_null:
  "ws_only ws \<Longrightarrow> parse_value (Suc n) (ws @ ''null'' @ rest) = Some (JNull, rest)"
  using parse_value_scalar [of "ws @ ''null'' @ rest" "CHR ''n''" "''ull'' @ rest" n]
  by (simp add: skip_ws_value value_start_def)

lemma parse_value_true:
  "ws_only ws \<Longrightarrow> parse_value (Suc n) (ws @ ''true'' @ rest) = Some (JBool True, rest)"
  using parse_value_scalar [of "ws @ ''true'' @ rest" "CHR ''t''" "''rue'' @ rest" n]
  by (simp add: skip_ws_value value_start_def)

lemma parse_value_false:
  "ws_only ws \<Longrightarrow> parse_value (Suc n) (ws @ ''false'' @ rest) = Some (JBool False, rest)"
  using parse_value_scalar [of "ws @ ''false'' @ rest" "CHR ''f''" "''alse'' @ rest" n]
  by (simp add: skip_ws_value value_start_def)

lemma number_start:
  "\<exists>c t. Number_toString i = c # t \<and> (is_digit c \<or> c = CHR ''-'')"
proof (cases "i < 0")
  case True
  then show ?thesis by (simp add: Number_toString_def)
next
  case False
  obtain c t where ct: "digits_of (nat i) = c # t"
    using digits_of_not_Nil [of "nat i"] by (cases "digits_of (nat i)") auto
  with hd_digits_is_digit [of "nat i"] False show ?thesis
    by (simp add: Number_toString_def)
qed

lemma parse_value_number:
  assumes "ws_only ws" "number_end rest"
  shows "parse_value (Suc n) (ws @ Number_toString i @ rest) = Some (JNumber i, rest)"
proof -
  obtain c t where ct: "Number_toString i = c # t" and c: "is_digit c \<or> c = CHR ''-''"
    using number_start by blast
  have vs: "value_start c" using c by (auto simp: value_start_def)
  have s: "skip_ws (ws @ Number_toString i @ rest) = c # (t @ rest)"
    using skip_ws_value [OF assms(1) vs, of "t @ rest"] by (simp add: ct)
  have ne: "c \<noteq> CHR ''{''" "c \<noteq> CHR ''[''" "c \<noteq> CHR 0x22" "c \<noteq> CHR ''t''" "c \<noteq> CHR ''f''"
    "c \<noteq> CHR ''n''"
    using c by (auto simp: is_digit_def)
  have "parse_value (Suc n) (ws @ Number_toString i @ rest) = parse_number (c # (t @ rest))"
    unfolding parse_value_scalar [OF s ne(1,2,3)] using ne(4,5,6) by simp
  also have "\<dots> = parse_number (Number_toString i @ rest)" by (simp add: ct)
  also have "\<dots> = Some (JNumber i, rest)" by (rule parse_number_toString [OF assms(2)])
  finally show ?thesis .
qed

lemma parse_value_quote:
  assumes "ws_only ws"
  shows "parse_value (Suc n) (ws @ quote str @ rest) = Some (JString str, rest)"
proof -
  obtain body where b: "quote str @ rest = CHR 0x22 # body"
    and p: "parse_chars body = Some (str, rest)"
    using parse_chars_quote by blast
  have "skip_ws (ws @ quote str @ rest) = CHR 0x22 # body"
    using skip_ws_value [OF assms, of "CHR 0x22" body] b by (simp add: value_start_def)
  from parse_value_string [OF this] p show ?thesis by simp
qed

lemma ws_only_append: "ws_only (a @ b) \<longleftrightarrow> ws_only a \<and> ws_only b"
  by (auto simp: ws_only_def)

lemma ws_only_gap: "ws_only ''  ''"
  by (simp add: ws_only_def is_ws_def)

lemma ws_only_newline: "ws_only (CHR ''\<newline>'' # s) \<longleftrightarrow> ws_only s"
  by (simp add: ws_only_def is_ws_def)

text \<open>Induction over values, a list of elements or of properties at a time.\<close>

lemma jsvalue_induct [case_names Array Object Unserializable Null Bool Number String]:
  assumes "\<And>xs. (\<And>x. x \<in> set xs \<Longrightarrow> P x) \<Longrightarrow> P (JArray xs)"
    and "\<And>ps. (\<And>p. p \<in> set ps \<Longrightarrow> P (snd p)) \<Longrightarrow> P (JObject ps)"
    and "P JUnserializable" and "P JNull" and "\<And>b. P (JBool b)" and "\<And>i. P (JNumber i)"
    and "\<And>s. P (JString s)"
  shows "P v"
  by (induction v rule: serializable.induct) (simp_all add: assms)

lemma skip_ws_items:
  assumes "ws_only ws" "xs \<noteq> []" "\<forall>x \<in> set xs. x \<noteq> [] \<and> value_start (hd x)"
  shows "take 1 (skip_ws (ws @ join_str sep xs @ rest)) \<noteq> '']'' \<and>
         take 1 (skip_ws (ws @ join_str sep xs @ rest)) \<noteq> ''}''"
proof -
  from assms(2,3) have h: "hd xs \<noteq> []" "value_start (hd (hd xs))"
    by (cases xs; simp)+
  with join_str_hd [OF assms(2) h(1), of sep]
  obtain c t where ct: "join_str sep xs = c # t" "value_start c"
    by (cases "join_str sep xs") auto
  have "skip_ws (ws @ join_str sep xs @ rest) = c # (t @ rest)"
    using skip_ws_value [OF assms(1) ct(2), of "t @ rest"] by (simp add: ct(1))
  then show ?thesis
    using value_start_not_close [OF ct(2)] by simp
qed

lemma parse_value_serialize:
  "serializable v \<Longrightarrow> ws_only ind \<Longrightarrow> ws_only ws \<Longrightarrow> fuel_of v \<le> n \<Longrightarrow> number_end rest \<Longrightarrow>
   parse_value n (ws @ serialize ''  '' ind v @ rest) = Some (v, rest)"
proof (induction v arbitrary: ind ws n rest rule: jsvalue_induct)
  case (Array xs)
  from Array.prems(4) obtain m where m: "n = Suc m" "sum_list (map (\<lambda>x. Suc (fuel_of x)) xs) \<le> m"
    by (cases n) auto
  show ?case
  proof (cases "xs = []")
    case True
    have s: "skip_ws (ws @ ''[]'' @ rest) = CHR ''['' # (CHR '']'' # rest)"
      using skip_ws_value [OF Array.prems(3), of "CHR ''[''"] by (simp add: value_start_def)
    have "skip_ws (CHR '']'' # rest) = CHR '']'' # rest"
      by (simp add: skip_ws_Cons is_ws_def)
    with True show ?thesis
      unfolding m(1) using parse_value_array [OF s, of m] by simp
  next
    case False
    let ?ind' = "ind @ ''  ''"
    let ?J = "join_str (CHR '','' # CHR ''\<newline>'' # ?ind') (map (serialize ''  '' ?ind') xs)"
    let ?t = "(CHR ''\<newline>'' # ?ind') @ ?J @ (CHR ''\<newline>'' # ind) @ CHR '']'' # rest"
    have shape: "serialize ''  '' ind (JArray xs) @ rest = CHR ''['' # ?t"
      using False by simp
    have w: "ws_only (CHR ''\<newline>'' # ?ind')" "ws_only (CHR ''\<newline>'' # ind)" "ws_only ?ind'"
      using Array.prems(2) by (simp_all add: ws_only_newline ws_only_append ws_only_gap)
    have s: "skip_ws (ws @ serialize ''  '' ind (JArray xs) @ rest) = CHR ''['' # ?t"
      unfolding shape using skip_ws_value [OF Array.prems(3), of "CHR ''[''"] by (simp add: value_start_def)
    have starts: "\<forall>x \<in> set (map (serialize ''  '' ?ind') xs). x \<noteq> [] \<and> value_start (hd x)"
      using Array.prems(1) serialize_start by auto
    have nonempty: "take 1 (skip_ws ?t) \<noteq> '']''"
      using skip_ws_items [OF w(1) _ starts] False by simp
    have "parse_elements m ?t = Some (xs, rest)"
    proof (rule parse_elements_join [OF _ False w(1) w(1) w(2) m(2)])
      fix x k ws' rest'
      assume x: "x \<in> set xs" and a: "ws_only ws'" "fuel_of x \<le> k" "number_end rest'"
      from x Array.prems(1) have "serializable x" by simp
      then show "parse_value k (ws' @ serialize ''  '' ?ind' x @ rest') = Some (x, rest')"
        using w(3) a by (rule Array.IH [OF x])
    qed
    then show ?thesis
      unfolding m(1) parse_value_array [OF s] using nonempty by simp
  qed
next
  case (Object ps)
  from Object.prems(4) obtain m where
    m: "n = Suc m" "sum_list (map (\<lambda>p. Suc (fuel_of (snd p))) ps) \<le> m"
    by (cases n) auto
  show ?case
  proof (cases "ps = []")
    case True
    have s: "skip_ws (ws @ ''{}'' @ rest) = CHR ''{'' # (CHR ''}'' # rest)"
      using skip_ws_value [OF Object.prems(3), of "CHR ''{''"] by (simp add: value_start_def)
    have "skip_ws (CHR ''}'' # rest) = CHR ''}'' # rest"
      by (simp add: skip_ws_Cons is_ws_def)
    with True show ?thesis
      unfolding m(1) using parse_value_object [OF s, of m] by simp
  next
    case False
    let ?ind' = "ind @ ''  ''"
    let ?J = "join_str (CHR '','' # CHR ''\<newline>'' # ?ind')
                (map (\<lambda>(k, v). quote k @ '': '' @ serialize ''  '' ?ind' v) ps)"
    let ?t = "(CHR ''\<newline>'' # ?ind') @ ?J @ (CHR ''\<newline>'' # ind) @ CHR ''}'' # rest"
    have shape: "serialize ''  '' ind (JObject ps) @ rest = CHR ''{'' # ?t"
      using False by simp
    have w: "ws_only (CHR ''\<newline>'' # ?ind')" "ws_only (CHR ''\<newline>'' # ind)" "ws_only ?ind'"
      using Object.prems(2) by (simp_all add: ws_only_newline ws_only_append ws_only_gap)
    have s: "skip_ws (ws @ serialize ''  '' ind (JObject ps) @ rest) = CHR ''{'' # ?t"
      unfolding shape using skip_ws_value [OF Object.prems(3), of "CHR ''{''"] by (simp add: value_start_def)
    have starts: "\<forall>x \<in> set (map (\<lambda>(k, v). quote k @ '': '' @ serialize ''  '' ?ind' v) ps).
        x \<noteq> [] \<and> value_start (hd x)"
      by (auto simp: quote_def value_start_def)
    have nonempty: "take 1 (skip_ws ?t) \<noteq> ''}''"
      using skip_ws_items [OF w(1) _ starts] False by simp
    have "parse_members m ?t = Some (ps, rest)"
    proof (rule parse_members_join [OF _ False w(1) w(1) w(2) m(2)])
      fix p k ws' rest'
      assume p: "p \<in> set ps" and a: "ws_only ws'" "fuel_of (snd p) \<le> k" "number_end rest'"
      from p Object.prems(1) have "serializable (snd p)" by simp
      then show "parse_value k (ws' @ serialize ''  '' ?ind' (snd p) @ rest') = Some (snd p, rest')"
        using w(3) a by (rule Object.IH [OF p])
    qed
    then show ?thesis
      unfolding m(1) parse_value_object [OF s] using nonempty by simp
  qed
next
  case Unserializable
  then show ?case by simp
next
  case Null
  from Null.prems(4) obtain m where "n = Suc m" by (cases n) auto
  then show ?case using parse_value_null [OF Null.prems(3), of m rest] by simp
next
  case (Bool b)
  from Bool.prems(4) obtain m where "n = Suc m" by (cases n) auto
  then show ?case
    using parse_value_true [OF Bool.prems(3), of m rest]
      parse_value_false [OF Bool.prems(3), of m rest]
    by (cases b) simp_all
next
  case (Number i)
  from Number.prems(4) obtain m where "n = Suc m" by (cases n) auto
  with Number.prems(3,5) show ?case by (simp add: parse_value_number)
next
  case (String s)
  from String.prems(4) obtain m where "n = Suc m" by (cases n) auto
  with String.prems(3) show ?case by (simp add: parse_value_quote)
qed

lemma fuel_join:
  assumes "\<forall>x \<in> set xs. fuel_of x \<le> length (item x)" "sep \<noteq> []"
  shows "sum_list (map (\<lambda>x. Suc (fuel_of x)) xs) \<le> Suc (length (join_str sep (map item xs)))"
  using assms(1)
proof (induction xs)
  case Nil
  show ?case by simp
next
  case (Cons x ys)
  show ?case
  proof (cases "ys = []")
    case True
    with Cons.prems show ?thesis by simp
  next
    case False
    have "1 \<le> length sep" using assms(2) by (cases sep) auto
    with Cons False show ?thesis by (simp add: join_str_Cons)
  qed
qed

lemma fuel_of_length:
  "serializable v \<Longrightarrow> fuel_of v \<le> length (serialize ''  '' ind v)"
proof (induction v arbitrary: ind rule: jsvalue_induct)
  case (Array xs)
  show ?case
  proof (cases "xs = []")
    case True
    then show ?thesis by simp
  next
    case False
    have "\<forall>x \<in> set xs. fuel_of x \<le> length (serialize ''  '' (ind @ ''  '') x)"
      using Array by simp
    from fuel_join [OF this, of "'',\<newline>'' @ ind @ ''  ''"] False show ?thesis by simp
  qed
next
  case (Object ps)
  show ?case
  proof (cases "ps = []")
    case True
    then show ?thesis by simp
  next
    case False
    let ?item = "\<lambda>p. quote (fst p) @ '': '' @ serialize ''  '' (ind @ ''  '') (snd p)"
    have "\<forall>p \<in> set ps. fuel_of (snd p) \<le> length (?item p)"
    proof
      fix p assume p: "p \<in> set ps"
      with Object.prems have "serializable (snd p)" by simp
      from Object.IH [OF p this, of "ind @ ''  ''"] show "fuel_of (snd p) \<le> length (?item p)"
        by simp
    qed
    then have "sum_list (map (\<lambda>p. Suc (fuel_of (snd p))) ps)
        \<le> Suc (length (join_str ('',\<newline>'' @ ind @ ''  '') (map ?item ps)))"
    proof (induction ps)
      case Nil
      show ?case by simp
    next
      case (Cons p qs)
      then show ?case by (cases "qs = []") (simp_all add: join_str_Cons)
    qed
    moreover have "(\<lambda>(k, v). quote k @ '': '' @ serialize ''  '' (ind @ ''  '') v) = ?item"
      by (simp add: fun_eq_iff split_beta)
    ultimately show ?thesis using False by simp
  qed
next
  case Unserializable
  then show ?case by simp
next
  case Null
  show ?case by simp
next
  case (Bool b)
  show ?case by simp
next
  case (Number i)
  obtain c t where "Number_toString i = c # t" using number_start by blast
  then show ?case by simp
next
  case (String s)
  show ?case by (simp add: quote_def)
qed

lemma indent_free_left: "CHR ''\<newline>'' \<notin> set a \<Longrightarrow> indent (a @ b) = a @ indent b"
proof -
  assume a: "CHR ''\<newline>'' \<notin> set a"
  obtain l ls where s: "split_str CHR ''\<newline>'' b = l # ls"
    by (cases "split_str CHR ''\<newline>'' b") auto
  have "join_str sep ((a @ l) # ls) = a @ join_str sep (l # ls)" for sep
    by (cases ls) auto
  with a s show ?thesis
    by (simp add: indent_def split_str_hd_free)
qed

lemma indent_free_right: "CHR ''\<newline>'' \<notin> set a \<Longrightarrow> indent (b @ a) = indent b @ a"
proof (induction b)
  case Nil
  then show ?case by (simp add: indent_no_newline)
next
  case (Cons c b)
  show ?case
  proof (cases "c = CHR ''\<newline>''")
    case True
    have "indent ([] @ CHR ''\<newline>'' # (b @ a)) = indent [] @ CHR ''\<newline>'' # ''  '' @ indent (b @ a)"
      by (rule indent_append)
    moreover have "indent ([] @ CHR ''\<newline>'' # b) = indent [] @ CHR ''\<newline>'' # ''  '' @ indent b"
      by (rule indent_append)
    ultimately show ?thesis using True Cons by simp
  next
    case False
    then have "indent (c # b @ a) = c # indent (b @ a)" "indent (c # b) = c # indent b"
      using indent_free_left [of "[c]" "b @ a"] indent_free_left [of "[c]" b] by simp_all
    with Cons show ?thesis by simp
  qed
qed

lemma indent_join:
  assumes "CHR ''\<newline>'' \<notin> set p"
  shows "indent (join_str (CHR '','' # CHR ''\<newline>'' # p) xs) =
         join_str (CHR '','' # CHR ''\<newline>'' # ''  '' @ p) (map indent xs)"
proof (induction xs)
  case Nil
  show ?case by (simp add: indent_no_newline)
next
  case (Cons x ys)
  show ?case
  proof (cases "ys = []")
    case True
    then show ?thesis by simp
  next
    case False
    let ?J = "join_str (CHR '','' # CHR ''\<newline>'' # p) ys"
    have "indent ((x @ '','') @ CHR ''\<newline>'' # (p @ ?J)) =
        indent (x @ '','') @ CHR ''\<newline>'' # ''  '' @ indent (p @ ?J)"
      by (rule indent_append)
    also have "indent (x @ '','') = indent x @ '',''"
      by (rule indent_free_right) simp
    also have "indent (p @ ?J) = p @ indent ?J"
      using assms by (rule indent_free_left)
    finally show ?thesis using False Cons by (simp add: join_str_Cons)
  qed
qed

lemma indent_block:
  assumes "CHR ''\<newline>'' \<notin> set ind" "CHR ''\<newline>'' \<notin> set cl" "b \<noteq> CHR ''\<newline>''"
  shows "indent (b # CHR ''\<newline>'' # (ind @ ''  '') @
                  join_str (CHR '','' # CHR ''\<newline>'' # ind @ ''  '') xs
                  @ CHR ''\<newline>'' # ind @ cl) =
         b # CHR ''\<newline>'' # ((''  '' @ ind) @ ''  '') @
           join_str (CHR '','' # CHR ''\<newline>'' # (''  '' @ ind) @ ''  '') (map indent xs)
           @ CHR ''\<newline>'' # (''  '' @ ind) @ cl"
proof -
  let ?J = "join_str (CHR '','' # CHR ''\<newline>'' # ind @ ''  '') xs"
  have J: "indent ?J = join_str (CHR '','' # CHR ''\<newline>'' # ''  '' @ ind @ ''  '') (map indent xs)"
    using assms(1) by (intro indent_join) simp
  have "indent ([b] @ CHR ''\<newline>'' # ((ind @ ''  '') @ ?J @ CHR ''\<newline>'' # ind @ cl)) =
      indent [b] @ CHR ''\<newline>'' # ''  '' @ indent ((ind @ ''  '') @ ?J @ CHR ''\<newline>'' # ind @ cl)"
    by (rule indent_append)
  also have "indent [b] = [b]"
    using assms(3) by (intro indent_no_newline) simp
  also have "indent ((ind @ ''  '') @ ?J @ CHR ''\<newline>'' # ind @ cl) =
      (ind @ ''  '') @ indent (?J @ CHR ''\<newline>'' # ind @ cl)"
    using assms(1) by (intro indent_free_left) simp
  also have "indent (?J @ CHR ''\<newline>'' # ind @ cl) =
      indent ?J @ CHR ''\<newline>'' # ''  '' @ indent (ind @ cl)"
    by (rule indent_append)
  also have "indent (ind @ cl) = ind @ cl"
    using assms(1,2) by (intro indent_no_newline) simp
  finally show ?thesis by (simp add: J)
qed

lemma indent_serialize:
  "CHR ''\<newline>'' \<notin> set ind \<Longrightarrow>
   indent (serialize ''  '' ind v) = serialize ''  '' (''  '' @ ind) v"
proof (induction v arbitrary: ind rule: jsvalue_induct)
  case (Array xs)
  show ?case
  proof (cases "xs = []")
    case True
    then show ?thesis by (simp add: indent_no_newline)
  next
    case False
    let ?items = "map (serialize ''  '' (ind @ ''  '')) xs"
    have m: "map indent ?items = map (serialize ''  '' ((''  '' @ ind) @ ''  '')) xs"
      unfolding map_map using Array.IH [of _ "ind @ ''  ''"] Array.prems
      by (intro map_cong refl) simp
    have "indent (serialize ''  '' ind (JArray xs)) =
        indent (CHR ''['' # CHR ''\<newline>'' # (ind @ ''  '') @
                  join_str (CHR '','' # CHR ''\<newline>'' # ind @ ''  '') ?items
                  @ CHR ''\<newline>'' # ind @ '']'')"
      using False by simp
    also have "\<dots> = CHR ''['' # CHR ''\<newline>'' # ((''  '' @ ind) @ ''  '') @
           join_str (CHR '','' # CHR ''\<newline>'' # (''  '' @ ind) @ ''  '') (map indent ?items)
           @ CHR ''\<newline>'' # (''  '' @ ind) @ '']''"
      by (rule indent_block [OF Array.prems]) simp_all
    also have "\<dots> = serialize ''  '' (''  '' @ ind) (JArray xs)"
      unfolding m using False by simp
    finally show ?thesis .
  qed
next
  case (Object ps)
  show ?case
  proof (cases "ps = []")
    case True
    then show ?thesis by (simp add: indent_no_newline)
  next
    case False
    let ?items = "map (\<lambda>(k, v). quote k @ '': '' @ serialize ''  '' (ind @ ''  '') v) ps"
    have m: "map indent ?items =
        map (\<lambda>(k, v). quote k @ '': '' @ serialize ''  '' ((''  '' @ ind) @ ''  '') v) ps"
      unfolding map_map
    proof (intro map_cong refl)
      fix p assume p: "p \<in> set ps"
      obtain k v where kv: "p = (k, v)" by (cases p)
      have "indent ((quote k @ '': '') @ serialize ''  '' (ind @ ''  '') v) =
          (quote k @ '': '') @ indent (serialize ''  '' (ind @ ''  '') v)"
        by (rule indent_free_left) (simp add: quote_no_newline)
      moreover have "indent (serialize ''  '' (ind @ ''  '') v) =
          serialize ''  '' (''  '' @ ind @ ''  '') v"
        using Object.IH [OF p, of "ind @ ''  ''"] Object.prems by (simp add: kv)
      ultimately show "(indent \<circ> (\<lambda>(k, v). quote k @ '': '' @ serialize ''  '' (ind @ ''  '') v)) p =
          (case p of (k, v) \<Rightarrow> quote k @ '': '' @ serialize ''  '' ((''  '' @ ind) @ ''  '') v)"
        by (simp add: kv)
    qed
    have "indent (serialize ''  '' ind (JObject ps)) =
        indent (CHR ''{'' # CHR ''\<newline>'' # (ind @ ''  '') @
                  join_str (CHR '','' # CHR ''\<newline>'' # ind @ ''  '') ?items
                  @ CHR ''\<newline>'' # ind @ ''}'')"
      using False by simp
    also have "\<dots> = CHR ''{'' # CHR ''\<newline>'' # ((''  '' @ ind) @ ''  '') @
           join_str (CHR '','' # CHR ''\<newline>'' # (''  '' @ ind) @ ''  '') (map indent ?items)
           @ CHR ''\<newline>'' # (''  '' @ ind) @ ''}''"
      by (rule indent_block [OF Object.prems]) simp_all
    also have "\<dots> = serialize ''  '' (''  '' @ ind) (JObject ps)"
      unfolding m using False by simp
    finally show ?thesis .
  qed
next
  case Unserializable
  show ?case by (simp add: indent_no_newline)
next
  case Null
  show ?case by (simp add: indent_no_newline)
next
  case (Bool b)
  show ?case by (simp add: indent_no_newline)
next
  case (Number i)
  show ?case by (simp add: indent_no_newline Number_toString_no_newline)
next
  case (String s)
  show ?case by (simp add: indent_no_newline quote_no_newline)
qed

lemma parseJSON_serialize:
  assumes "serializable v" "ws_only ind"
  shows "parseJSON (serialize ''  '' ind v) = Some v"
proof -
  let ?t = "serialize ''  '' ind v"
  have "fuel_of v \<le> Suc (length ?t)"
    using fuel_of_length [OF assms(1), of ind] by simp
  then have "parse_value (Suc (length ?t)) ([] @ ?t @ []) = Some (v, [])"
    using assms by (intro parse_value_serialize) (simp_all add: ws_only_def number_end_def)
  then show ?thesis
    by (simp add: parseJSON_def skip_ws_def)
qed

lemma parseJSON_showJSON:
  "serializable v \<Longrightarrow> parseJSON (indent (serialize ''  '' [] v)) = Some v"
  using parseJSON_serialize [of v "''  ''"] indent_serialize [of "[]" v]
  by (simp add: ws_only_gap)

text \<open>
  C9: when the request content is present and rendering returns, the output has, in the
  block of the request content, the indented serialization of the request content as its
  payload, and parsing this payload as JSON gives the request content back.
\<close>

theorem request_json_roundtrip:
  assumes "showRequestResult (external toJSON_model) r w = (Inr out, w')"
    and "requestContent r = Some c" and "c \<noteq> JNull"
  shows "request_json_payload r out (indent (serialize ''  '' [] c)) \<and>
         parseJSON (indent (serialize ''  '' [] c)) = Some c"
proof -
  have p: "present (requestContent r)"
    using assms(2,3) by (simp add: present_def)
  from assms(1) have "serializable c \<and>
      (\<exists>h j. out = header_line r @ (''  Request JSON: '' @ indent (serialize ''  '' [] c) @ ''\<newline>'')
         @ ''  Response headers: '' @ indent h @ ''\<newline>''
         @ ''  Response JSON: '' @ indent j @ ''\<newline>'' @ status_line r)"
    unfolding showRequestResult_Inr toJSON_model_Inr using p assms(2) by auto
  then show ?thesis
    using parseJSON_showJSON [of c] by (auto simp: request_json_payload_def)
qed

theorem request_json_roundtrip_witness:
  "showRequestResult (external toJSON_model) example_put () = (Inr example_put_out, ()) \<and>
   requestContent example_put = Some (JArray [JNumber 1, JBool True]) \<and>
   JArray [JNumber 1, JBool True] \<noteq> JNull \<and>
   request_json_payload example_put example_put_out ''[\<newline>    1,\<newline>    true\<newline>  ]'' \<and>
   parseJSON ''[\<newline>    1,\<newline>    true\<newline>  ]'' = Some (JArray [JNumber 1, JBool True])"
proof -
  have h1: "showRequestResult (external toJSON_model) example_put () = (Inr example_put_out, ())"
    by (rule example_put_renders)
  have h2: "requestContent example_put = Some (JArray [JNumber 1, JBool True])"
    by (simp add: example_put_def)
  have h3: "JArray [JNumber 1, JBool True] \<noteq> JNull" by simp
  have e: "indent (serialize ''  '' [] (JArray [JNumber 1, JBool True])) =
      ''[\<newline>    1,\<newline>    true\<newline>  ]''"
    by code_simp
  from request_json_roundtrip [OF h1 h2 h3] h1 h2 show ?thesis
    unfolding e by simp
qed

end
